theory Spec2Isabelle
  imports Main "HOL-Library.Word" "HOL-Library.Char_ord" "HOL-Library.List_Lexorder"
begin

section \<open>Data model of hexagonalSearch.cpp\<close>

text \<open>The two macros of the source.\<close>

definition SIDES :: nat where
  "SIDES = 6"

definition ALPHABET :: nat where
  "ALPHABET = 26"

text \<open>
  Nodes are allocated with \<^verbatim>\<open>new\<close> and referred to by pointers. An address is a
  natural number, a pointer is an \<open>addr option\<close> (\<open>None\<close> is \<^verbatim>\<open>NULL\<close>), and the
  free store maps every address to the node it holds.

  The struct \<^verbatim>\<open>linkedPolygonNode<SIDES>\<close>: the field \<^verbatim>\<open>value\<close> is called
  \<open>cvalue\<close> here; \<^verbatim>\<open>adjacentList\<close> is the array of \<^verbatim>\<open>SIDES\<close> pointers, read
  and written at the indices below \<open>SIDES\<close> only.
\<close>

type_synonym addr = nat

record linkedPolygonNode =
  cvalue :: char
  layerN :: nat
  charN :: nat
  adjacentList :: "nat \<Rightarrow> addr option"
  nextPtr :: "addr option"
  visited :: bool

type_synonym heap = "addr \<Rightarrow> linkedPolygonNode"

text \<open>The default member initialisers of the struct: what \<^verbatim>\<open>new\<close> creates.\<close>

definition newNode :: linkedPolygonNode where
  "newNode = \<lparr>cvalue = CHR 0x00, layerN = 0, charN = 0,
              adjacentList = (\<lambda>_. None), nextPtr = None, visited = False\<rparr>"

text \<open>
  What the source cannot do without undefined behaviour or an exception: an index outside
  a vector or an array (\<open>OutOfBounds\<close>), \<^verbatim>\<open>substr(1)\<close> on an empty string
  (\<open>SubstrOutOfRange\<close>, the exception \<^verbatim>\<open>std::out_of_range\<close>).
\<close>

datatype fault = OutOfBounds | SubstrOutOfRange

section \<open>getBucket and isCorner\<close>

text \<open>
  \<^verbatim>\<open>value - 'A'\<close> is computed on \<^verbatim>\<open>int\<close> after promotion of the (signed, 8 bit)
  \<^verbatim>\<open>char\<close>, and returned as a 64-bit \<^verbatim>\<open>size_t\<close>: a character below \<^verbatim>\<open>'A'\<close>
  wraps around to a huge index.
\<close>

definition getBucket :: "char \<Rightarrow> 64 word" where
  "getBucket v = word_of_int (sint (of_char v :: 8 word) - sint (of_char CHR ''A'' :: 8 word))"

definition isCorner :: "nat \<Rightarrow> nat \<Rightarrow> bool" where
  "isCorner ln cn = (if ln = 0 then True else cn mod ln = 0)"

section \<open>searchNodes\<close>

text \<open>
  The recursive depth-first search. \<open>searchNeighbors\<close> is the \<^verbatim>\<open>for\<close> loop over the
  neighbour slots, from slot \<open>neighborN\<close> on; \<open>first\<close> and \<open>rest\<close> are \<^verbatim>\<open>word[0]\<close> and
  \<^verbatim>\<open>word.substr(1)\<close> of the non-empty word. The function returns the boolean and the
  store it leaves behind.
\<close>

function searchNodes :: "string \<Rightarrow> addr option \<Rightarrow> heap \<Rightarrow> bool \<times> heap"
  and searchNeighbors :: "char \<Rightarrow> string \<Rightarrow> addr \<Rightarrow> nat \<Rightarrow> heap \<Rightarrow> bool \<times> heap"
where
  "searchNodes word None h = (False, h)"
| "searchNodes [] (Some current) h = (True, h)"
| "searchNodes (first # rest) (Some current) h =
     searchNeighbors first rest current 0 (h(current := (h current)\<lparr>visited := True\<rparr>))"
| "searchNeighbors first rest current neighborN h =
     (if neighborN < SIDES then
        (case adjacentList (h current) neighborN of
           None \<Rightarrow> searchNeighbors first rest current (Suc neighborN) h
         | Some neighbor \<Rightarrow>
             if visited (h neighbor) = False \<and> cvalue (h neighbor) = first then
               (let (found, h') = searchNodes rest (Some neighbor) h in
                if found then (True, h'(current := (h' current)\<lparr>visited := False\<rparr>))
                else searchNeighbors first rest current (Suc neighborN) h')
             else searchNeighbors first rest current (Suc neighborN) h)
      else (False, h(current := (h current)\<lparr>visited := False\<rparr>)))"
  by pat_completeness auto
termination
  by (relation "measures
        [\<lambda>x. case x of Inl (word, _, _) \<Rightarrow> 2 * length word
                      | Inr (_, rest, _, _, _) \<Rightarrow> 2 * length rest + 1,
         \<lambda>x. case x of Inl _ \<Rightarrow> 0
                      | Inr (_, _, _, neighborN, _) \<Rightarrow> SIDES - neighborN]") auto

declare searchNeighbors.simps [simp del]

section \<open>populateLinkedNodeArray\<close>

text \<open>
  \<^verbatim>\<open>getLastNode\<close> follows the \<^verbatim>\<open>nextPtr\<close> links until the last node of the list. On a
  cyclic list the loop does not return: \<open>None\<close> here is "no result", not a null pointer.
\<close>

partial_function (option) getLastNode :: "heap \<Rightarrow> addr \<Rightarrow> addr option" where
  "getLastNode h current =
     (case nextPtr (h current) of
        None \<Rightarrow> Some current
      | Some n \<Rightarrow> getLastNode h n)"

declare getLastNode.simps [code]

text \<open>
  The variables \<^verbatim>\<open>main\<close> hands to the builder, with the free store: the vector of
  vectors of node pointers, the array of \<^verbatim>\<open>ALPHABET\<close> list heads (read and written
  below \<open>ALPHABET\<close> only), the nodes, and the number of nodes allocated so far, which is
  the address the next \<^verbatim>\<open>new\<close> returns.
\<close>

record grid =
  positionNodeArray :: "addr list list"
  linkedNodeArray :: "nat \<Rightarrow> addr option"
  nodes :: heap
  allocated :: nat

definition emptyGrid :: grid where
  "emptyGrid = \<lparr>positionNodeArray = [], linkedNodeArray = (\<lambda>_. None),
                nodes = (\<lambda>_. newNode), allocated = 0\<rparr>"

text \<open>
  The inner loop over the characters of one layer, from \<open>cn\<close> on. The outer \<open>option\<close> is
  the result of \<open>getLastNode\<close>; \<open>Inl\<close> is an index out of range.
\<close>

fun populateLayer :: "nat \<Rightarrow> string \<Rightarrow> nat \<Rightarrow> grid \<Rightarrow> (fault + grid) option" where
  "populateLayer ln [] cn g = Some (Inr g)"
| "populateLayer ln (v # layer) cn g =
     (let new = allocated g;
          h1 = (nodes g)(new := newNode\<lparr>cvalue := v, layerN := ln, charN := cn\<rparr>)
      in if \<not> ln < length (positionNodeArray g) then Some (Inl OutOfBounds)
         else
           let pna = (positionNodeArray g)[ln := positionNodeArray g ! ln @ [new]];
               bucket = unat (getBucket v)
           in if \<not> bucket < ALPHABET then Some (Inl OutOfBounds)
              else
                (case linkedNodeArray g bucket of
                   None \<Rightarrow>
                     populateLayer ln layer (Suc cn)
                       \<lparr>positionNodeArray = pna,
                        linkedNodeArray = (linkedNodeArray g)(bucket := Some new),
                        nodes = h1, allocated = Suc new\<rparr>
                 | Some head \<Rightarrow>
                     (case getLastNode h1 head of
                        None \<Rightarrow> None
                      | Some lastNode \<Rightarrow>
                          populateLayer ln layer (Suc cn)
                            \<lparr>positionNodeArray = pna,
                             linkedNodeArray = linkedNodeArray g,
                             nodes = h1(lastNode := (h1 lastNode)\<lparr>nextPtr := Some new\<rparr>),
                             allocated = Suc new\<rparr>)))"

text \<open>The outer loop over the layers, from \<open>ln\<close> on.\<close>

fun populateLayers :: "string list \<Rightarrow> nat \<Rightarrow> grid \<Rightarrow> (fault + grid) option" where
  "populateLayers [] ln g = Some (Inr g)"
| "populateLayers (layer # layers) ln g =
     (case populateLayer ln layer 0 (g\<lparr>positionNodeArray := positionNodeArray g @ [[]]\<rparr>) of
        None \<Rightarrow> None
      | Some (Inl e) \<Rightarrow> Some (Inl e)
      | Some (Inr g') \<Rightarrow> populateLayers layers (Suc ln) g')"

definition populateLinkedNodeArray :: "string list \<Rightarrow> grid \<Rightarrow> (fault + grid) option" where
  "populateLinkedNodeArray layers g = populateLayers layers 0 g"

section \<open>setNeighbors\<close>

text \<open>
  A statement changes the store or reads outside a vector. \<open>run\<close> executes statements
  one after the other; a \<^verbatim>\<open>for\<close> loop over \<open>0..<n\<close> is \<open>run\<close> of its bodies.
\<close>

type_synonym stmt = "heap \<Rightarrow> fault + heap"

fun run :: "stmt list \<Rightarrow> stmt" where
  "run [] h = Inr h"
| "run (s # ss) h = (case s h of Inl e \<Rightarrow> Inl e | Inr h' \<Rightarrow> run ss h')"

definition skip :: stmt where
  "skip h = Inr h"

text \<open>\<^verbatim>\<open>positionNodeArray[i][j]\<close>, with both indices checked.\<close>

definition cellAt :: "addr list list \<Rightarrow> nat \<Rightarrow> nat \<Rightarrow> fault + addr" where
  "cellAt pna i j =
     (if i < length pna \<and> j < length (pna ! i) then Inr (pna ! i ! j) else Inl OutOfBounds)"

text \<open>\<^verbatim>\<open>current->adjacentList[slot] = positionNodeArray[i][j];\<close>\<close>

definition setAdjacent :: "addr list list \<Rightarrow> addr \<Rightarrow> nat \<Rightarrow> nat \<Rightarrow> nat \<Rightarrow> stmt" where
  "setAdjacent pna current slot i j h =
     (case cellAt pna i j of
        Inl e \<Rightarrow> Inl e
      | Inr p \<Rightarrow>
          Inr (h(current := (h current)\<lparr>adjacentList := (adjacentList (h current))(slot := Some p)\<rparr>)))"

text \<open>
  The body of the inner loop for the node \<open>current\<close> at layer \<open>ln\<close>, position \<open>cn\<close>.
  The indices are \<^verbatim>\<open>size_t\<close>; every subtraction of the source is guarded so that it
  does not wrap (\<open>ln > 0\<close>, \<open>charCount > cn\<close>, \<open>layerCount > ln\<close>, a non-corner has
  \<open>cn mod ln > 0\<close>, a corner with \<open>cn > 0\<close> has \<open>cn div ln > 0\<close>), so they are natural
  numbers here.
\<close>

definition setNeighborsNode :: "addr list list \<Rightarrow> nat \<Rightarrow> nat \<Rightarrow> nat \<Rightarrow> nat \<Rightarrow> addr \<Rightarrow> stmt" where
  "setNeighborsNode pna layerCount ln charCount cn current =
     (if ln > 0 then
        run [
          (if cn < charCount - 1
           then setAdjacent pna current 0 (ln - 1) ((ln - 1) * (cn div ln) + (cn mod ln))
           else setAdjacent pna current 0 (ln - 1) 0),
          (if \<not> isCorner ln cn
           then setAdjacent pna current 5 (ln - 1) ((ln - 1) * (cn div ln) + (cn mod ln) - 1)
           else skip),
          (if cn > 0
           then setAdjacent pna current 1 ln (cn - 1)
           else setAdjacent pna current 1 ln (charCount - 1)),
          (if cn < charCount - 1
           then setAdjacent pna current 2 ln (cn + 1)
           else setAdjacent pna current 2 ln 0),
          (if ln < layerCount - 1 then
             run [
               (if isCorner ln cn then
                  (if cn > 0
                   then setAdjacent pna current 5 (ln + 1) ((ln + 1) * (cn div ln) - 1)
                   else setAdjacent pna current 5 (ln + 1) (charCount + SIDES - 1))
                else skip),
               setAdjacent pna current 3 (ln + 1) ((ln + 1) * (cn div ln) + (cn mod ln)),
               setAdjacent pna current 4 (ln + 1) ((ln + 1) * (cn div ln) + (cn mod ln) + 1)]
           else skip)]
      else if layerCount > 1 then
        run (map (\<lambda>neighborN. setAdjacent pna current neighborN 1 neighborN) [0..<SIDES])
      else skip)"

text \<open>The two nested loops.\<close>

definition setNeighborsLayer :: "addr list list \<Rightarrow> nat \<Rightarrow> nat \<Rightarrow> stmt" where
  "setNeighborsLayer pna layerCount ln =
     (let charCount = length (pna ! ln) in
      run (map (\<lambda>cn h.
                  case cellAt pna ln cn of
                    Inl e \<Rightarrow> Inl e
                  | Inr current \<Rightarrow> setNeighborsNode pna layerCount ln charCount cn current h)
               [0..<charCount]))"

definition setNeighbors :: "addr list list \<Rightarrow> stmt" where
  "setNeighbors pna =
     (let layerCount = length pna in
      run (map (setNeighborsLayer pna layerCount) [0..<layerCount]))"

section \<open>main\<close>

text \<open>\<^verbatim>\<open>word[0]\<close>: for the empty string it is the terminating null character.\<close>

definition word0 :: "string \<Rightarrow> char" where
  "word0 word = (case word of [] \<Rightarrow> CHR 0x00 | c # _ \<Rightarrow> c)"

text \<open>\<^verbatim>\<open>word.substr(1)\<close> throws on the empty string.\<close>

definition substr1 :: "string \<Rightarrow> fault + string" where
  "substr1 word = (case word of [] \<Rightarrow> Inl SubstrOutOfRange | _ # rest \<Rightarrow> Inr rest)"

text \<open>
  The \<^verbatim>\<open>while\<close> loop of \<^verbatim>\<open>main\<close> over the linked list of one letter. It returns
  whether the word was found; \<open>None\<close> is a loop that does not return (a cyclic list).
\<close>

partial_function (option) searchList ::
  "string \<Rightarrow> addr option \<Rightarrow> heap \<Rightarrow> (fault + bool \<times> heap) option" where
  "searchList word current h =
     (case current of
        None \<Rightarrow> Some (Inr (False, h))
      | Some c \<Rightarrow>
          (case substr1 word of
             Inl e \<Rightarrow> Some (Inl e)
           | Inr rest \<Rightarrow>
               (let (found, h') = searchNodes rest (Some c) h in
                if found then Some (Inr (True, h'))
                else searchList word (nextPtr (h' c)) h')))"

declare searchList.simps [code]

text \<open>The loop over the dictionary; \<open>found\<close> is the vector of the words found so far.\<close>

fun searchDictionary ::
  "(nat \<Rightarrow> addr option) \<Rightarrow> string list \<Rightarrow> string list \<Rightarrow> heap \<Rightarrow> (fault + string list \<times> heap) option" where
  "searchDictionary lna [] found h = Some (Inr (found, h))"
| "searchDictionary lna (word # dictionary) found h =
     (let first = word0 word;
          bucket = unat (getBucket first)
      in if \<not> bucket < ALPHABET then Some (Inl OutOfBounds)
         else
           (case searchList word (lna bucket) h of
              None \<Rightarrow> None
            | Some (Inl e) \<Rightarrow> Some (Inl e)
            | Some (Inr (True, h')) \<Rightarrow> searchDictionary lna dictionary (found @ [word]) h'
            | Some (Inr (False, h')) \<Rightarrow> searchDictionary lna dictionary found h'))"

text \<open>
  The initialisation of \<^verbatim>\<open>main\<close>: populateLinkedNodeArray on the empty vector and the
  array of null pointers, then setNeighbors.
\<close>

definition buildGrid :: "string list \<Rightarrow> (fault + grid) option" where
  "buildGrid layers =
     (case populateLinkedNodeArray layers emptyGrid of
        None \<Rightarrow> None
      | Some (Inl e) \<Rightarrow> Some (Inl e)
      | Some (Inr g) \<Rightarrow>
          (case setNeighbors (positionNodeArray g) (nodes g) of
             Inl e \<Rightarrow> Some (Inl e)
           | Inr h \<Rightarrow> Some (Inr (g\<lparr>nodes := h\<rparr>))))"

text \<open>
  \<^verbatim>\<open>main\<close> from the two lists of lines (the layers after the line with their count, and
  the dictionary) to the lines it prints.
\<close>

definition main :: "string list \<Rightarrow> string list \<Rightarrow> (fault + string list) option" where
  "main layers dictionary =
     (case buildGrid layers of
        None \<Rightarrow> None
      | Some (Inl e) \<Rightarrow> Some (Inl e)
      | Some (Inr g) \<Rightarrow>
          (case searchDictionary (linkedNodeArray g) dictionary [] (nodes g) of
             None \<Rightarrow> None
           | Some (Inl e) \<Rightarrow> Some (Inl e)
           | Some (Inr (found, h')) \<Rightarrow> Some (Inr (sort found))))"

section \<open>Recursion depth of searchNodes\<close>

text \<open>
  \<open>searchDepth\<close> follows \<open>searchNodes\<close> call by call and counts how deep the recursive
  calls below one call nest: a call that makes no recursive call has depth 0, and a
  recursive call adds one to the depth of the call it makes.
\<close>

function searchDepth :: "string \<Rightarrow> addr option \<Rightarrow> heap \<Rightarrow> nat"
  and neighborsDepth :: "char \<Rightarrow> string \<Rightarrow> addr \<Rightarrow> nat \<Rightarrow> heap \<Rightarrow> nat"
where
  "searchDepth word None h = 0"
| "searchDepth [] (Some current) h = 0"
| "searchDepth (first # rest) (Some current) h =
     neighborsDepth first rest current 0 (h(current := (h current)\<lparr>visited := True\<rparr>))"
| "neighborsDepth first rest current neighborN h =
     (if neighborN < SIDES then
        (case adjacentList (h current) neighborN of
           None \<Rightarrow> neighborsDepth first rest current (Suc neighborN) h
         | Some neighbor \<Rightarrow>
             if visited (h neighbor) = False \<and> cvalue (h neighbor) = first then
               (let (found, h') = searchNodes rest (Some neighbor) h;
                    d = Suc (searchDepth rest (Some neighbor) h)
                in if found then d
                   else max d (neighborsDepth first rest current (Suc neighborN) h'))
             else neighborsDepth first rest current (Suc neighborN) h)
      else 0)"
  by pat_completeness auto
termination
  by (relation "measures
        [\<lambda>x. case x of Inl (word, _, _) \<Rightarrow> 2 * length word
                      | Inr (_, rest, _, _, _) \<Rightarrow> 2 * length rest + 1,
         \<lambda>x. case x of Inl _ \<Rightarrow> 0
                      | Inr (_, _, _, neighborN, _) \<Rightarrow> SIDES - neighborN]") auto

declare neighborsDepth.simps [simp del]

section \<open>The notions of the specification\<close>

text \<open>A cell \<open>a\<close> lists \<open>b\<close> as a neighbour: one of the slots of \<open>a\<close> points to \<open>b\<close>.\<close>

definition linked :: "heap \<Rightarrow> addr \<Rightarrow> addr \<Rightarrow> bool" where
  "linked h a b = list_ex (\<lambda>k. adjacentList (h a) k = Some b) [0..<SIDES]"

text \<open>A sequence of cells in which each cell lists the next one as a neighbour.\<close>

fun neighborPath :: "heap \<Rightarrow> addr list \<Rightarrow> bool" where
  "neighborPath h (a # b # p) = (linked h a b \<and> neighborPath h (b # p))"
| "neighborPath h p = True"

text \<open>
  A simple path from \<open>start\<close> that spells \<open>word\<close>: it begins at \<open>start\<close>, visits no
  cell twice, moves between neighbour-linked cells, and its letters are the word.
\<close>

definition simplePath :: "heap \<Rightarrow> addr \<Rightarrow> addr list \<Rightarrow> string \<Rightarrow> bool" where
  "simplePath h start p word =
     (p \<noteq> [] \<and> hd p = start \<and> distinct p \<and> neighborPath h p \<and> map (\<lambda>a. cvalue (h a)) p = word)"

text \<open>An uppercase letter.\<close>

definition isUpper :: "char \<Rightarrow> bool" where
  "isUpper c = (CHR ''A'' \<le> c \<and> c \<le> CHR ''Z'')"

text \<open>
  A well-formed honeycomb: layer 0 has one cell and layer \<open>r > 0\<close> has \<open>6 r\<close> cells.
\<close>

definition hexShape :: "'a list list \<Rightarrow> bool" where
  "hexShape ls = list_all (\<lambda>r. length (ls ! r) = (if r = 0 then 1 else SIDES * r)) [0..<length ls]"

text \<open>
  The neighbour relation is symmetric on the cells of the honeycomb: whenever a slot of a
  cell \<open>a\<close> points to \<open>b\<close>, a slot of \<open>b\<close> points back to \<open>a\<close>.
\<close>

definition symmetricOn :: "heap \<Rightarrow> addr list \<Rightarrow> bool" where
  "symmetricOn h cells =
     list_all (\<lambda>a. list_all (\<lambda>k. case adjacentList (h a) k of
                                     None \<Rightarrow> True
                                   | Some b \<Rightarrow> linked h b a) [0..<SIDES]) cells"

definition gridSymmetric :: "grid \<Rightarrow> bool" where
  "gridSymmetric g = symmetricOn (nodes g) (concat (positionNodeArray g))"

text \<open>
  The slots of the cell at layer \<open>r\<close>, position \<open>p\<close> that point to a cell of layer
  \<open>r - 1\<close>: its populated inward neighbour slots.
\<close>

definition inwardSlots :: "grid \<Rightarrow> nat \<Rightarrow> nat \<Rightarrow> nat list" where
  "inwardSlots g r p =
     filter (\<lambda>k. case adjacentList (nodes g (positionNodeArray g ! r ! p)) k of
                   None \<Rightarrow> False
                 | Some b \<Rightarrow> layerN (nodes g b) = r - 1) [0..<SIDES]"

section \<open>Auxiliary notions of the proofs\<close>

text \<open>Slot \<open>j\<close> of \<open>c\<close> holds an unmarked neighbour with the letter \<open>first\<close> from which the
  search for \<open>rest\<close> succeeds.\<close>

definition slotHit :: "heap \<Rightarrow> char \<Rightarrow> string \<Rightarrow> addr \<Rightarrow> nat \<Rightarrow> bool" where
  "slotHit h first rest c j =
     (\<exists>n. adjacentList (h c) j = Some n \<and> visited (h n) = False \<and> cvalue (h n) = first
          \<and> fst (searchNodes rest (Some n) h))"

text \<open>A path that continues from \<open>c\<close> through the unmarked, pairwise different cells \<open>p\<close>
  and spells \<open>w\<close> after \<open>c\<close>.\<close>

definition freePath :: "heap \<Rightarrow> addr \<Rightarrow> addr list \<Rightarrow> string \<Rightarrow> bool" where
  "freePath h c p w =
     (distinct (c # p) \<and> neighborPath h (c # p) \<and> (\<forall>a\<in>set p. visited (h a) = False)
      \<and> map (\<lambda>a. cvalue (h a)) p = w)"

text \<open>A store of two cells, \<open>A\<close> at address 0 with \<open>B\<close> at address 1 in its slot 0.\<close>

definition twoCells :: heap where
  "twoCells = (\<lambda>_. newNode)
     (0 := newNode\<lparr>cvalue := CHR ''A'', adjacentList := (\<lambda>_. None)(0 := Some 1)\<rparr>,
      1 := newNode\<lparr>cvalue := CHR ''B''\<rparr>)"

text \<open>The coordinates (layer, position) that setNeighbors gives slot \<open>k\<close> of the cell at layer \<open>r\<close>,
  position \<open>p\<close> of a honeycomb of \<open>layerCount\<close> layers whose layer \<open>r > 0\<close> has \<open>6 r\<close> cells; \<open>None\<close> for a
  slot it does not write.\<close>

definition hexNeighbor :: "nat \<Rightarrow> nat \<Rightarrow> nat \<Rightarrow> nat \<Rightarrow> (nat \<times> nat) option" where
  "hexNeighbor layerCount r p k =
     (if r = 0 then (if 1 < layerCount \<and> k < SIDES then Some (1, k) else None)
      else if k = 0 then
        Some (r - 1, if p < SIDES * r - 1 then (r - 1) * (p div r) + p mod r else 0)
      else if k = 1 then Some (r, if 0 < p then p - 1 else SIDES * r - 1)
      else if k = 2 then Some (r, if p < SIDES * r - 1 then p + 1 else 0)
      else if k = 3 then
        (if r < layerCount - 1 then Some (r + 1, (r + 1) * (p div r) + p mod r) else None)
      else if k = 4 then
        (if r < layerCount - 1 then Some (r + 1, (r + 1) * (p div r) + p mod r + 1) else None)
      else if k = 5 then
        (if \<not> isCorner r p then Some (r - 1, (r - 1) * (p div r) + p mod r - 1)
         else if r < layerCount - 1 then
           Some (r + 1, if 0 < p then (r + 1) * (p div r) - 1 else SIDES * r + SIDES - 1)
         else None)
      else None)"

text \<open>A position of a well-formed honeycomb of \<open>layerCount\<close> layers.\<close>

definition validCell :: "nat \<Rightarrow> nat \<Rightarrow> nat \<Rightarrow> bool" where
  "validCell layerCount r p = (r < layerCount \<and> p < (if r = 0 then 1 else SIDES * r))"

text \<open>The store after the slots of the node at \<open>cur\<close> have been changed by \<open>f\<close>.\<close>

definition setSlots :: "addr \<Rightarrow> ((nat \<Rightarrow> addr option) \<Rightarrow> (nat \<Rightarrow> addr option)) \<Rightarrow> heap \<Rightarrow> heap" where
  "setSlots cur f h = h(cur := (h cur)\<lparr>adjacentList := f (adjacentList (h cur))\<rparr>)"

text \<open>The slots of the cell at layer \<open>r\<close>, position \<open>p\<close> after setNeighbors, from the slots before.\<close>

definition nbrSlots :: "addr list list \<Rightarrow> nat \<Rightarrow> nat \<Rightarrow> (nat \<Rightarrow> addr option) \<Rightarrow> (nat \<Rightarrow> addr option)" where
  "nbrSlots pna r p old k =
     (case hexNeighbor (length pna) r p k of
        None \<Rightarrow> old k
      | Some (i, j) \<Rightarrow> Some (pna ! i ! j))"

text \<open>The cells of the honeycomb in the order of the two loops, each with the change of its slots.\<close>

definition cellUpdates :: "addr list list \<Rightarrow> (addr \<times> ((nat \<Rightarrow> addr option) \<Rightarrow> (nat \<Rightarrow> addr option))) list" where
  "cellUpdates pna =
     concat (map (\<lambda>r. map (\<lambda>p. (pna ! r ! p, nbrSlots pna r p)) [0..<length (pna ! r)]) [0..<length pna])"

text \<open>The links \<^verbatim>\<open>nextPtr\<close> lead to nodes allocated later, with the same bucket.\<close>

definition chainInv :: "heap \<Rightarrow> nat \<Rightarrow> bool" where
  "chainInv h n =
     (\<forall>a b. nextPtr (h a) = Some b \<longrightarrow>
        a < b \<and> b < n \<and> getBucket (cvalue (h b)) = getBucket (cvalue (h a)))"

text \<open>The list heads are allocated nodes of their bucket, and the bucket of every allocated
  node has a head.\<close>

definition headsInv :: "(nat \<Rightarrow> addr option) \<Rightarrow> heap \<Rightarrow> nat \<Rightarrow> bool" where
  "headsInv lna h n =
     ((\<forall>k a. lna k = Some a \<longrightarrow> a < n \<and> unat (getBucket (cvalue (h a))) = k) \<and>
      (\<forall>a<n. lna (unat (getBucket (cvalue (h a)))) \<noteq> None))"

text \<open>The nodes of the position array are allocated and carry their coordinates; no node has a
  neighbour or an on-path marker yet.\<close>

definition cellsInv :: "addr list list \<Rightarrow> heap \<Rightarrow> nat \<Rightarrow> bool" where
  "cellsInv pna h n =
     ((\<forall>i<length pna. \<forall>j<length (pna ! i).
         pna ! i ! j < n \<and> layerN (h (pna ! i ! j)) = i \<and> charN (h (pna ! i ! j)) = j) \<and>
      (\<forall>a. adjacentList (h a) = (\<lambda>_. None)) \<and> (\<forall>a. visited (h a) = False))"

text \<open>The invariant of the two loops of populateLinkedNodeArray.\<close>

definition gridInv :: "grid \<Rightarrow> bool" where
  "gridInv g =
     (chainInv (nodes g) (allocated g) \<and> headsInv (linkedNodeArray g) (nodes g) (allocated g) \<and>
      cellsInv (positionNodeArray g) (nodes g) (allocated g))"

text \<open>What setNeighbors leaves in a well-formed honeycomb of \<open>L\<close> layers.\<close>

definition wellBuilt :: "nat \<Rightarrow> grid \<Rightarrow> bool" where
  "wellBuilt L g =
     (length (positionNodeArray g) = L \<and>
      (\<forall>r p k. validCell L r p \<longrightarrow>
         adjacentList (nodes g (positionNodeArray g ! r ! p)) k =
           (case hexNeighbor L r p k of
              None \<Rightarrow> None
            | Some (i, j) \<Rightarrow> Some (positionNodeArray g ! i ! j))) \<and>
      (\<forall>r p. validCell L r p \<longrightarrow>
         layerN (nodes g (positionNodeArray g ! r ! p)) = r \<and>
         charN (nodes g (positionNodeArray g ! r ! p)) = p) \<and>
      (\<forall>a\<in>set (concat (positionNodeArray g)).
         \<exists>r p. validCell L r p \<and> a = positionNodeArray g ! r ! p) \<and>
      (\<forall>a. visited (nodes g a) = False))"

text \<open>A statement that leaves the letters, the list links and the on-path markers of all nodes
  as they are.\<close>

definition keeps :: "stmt \<Rightarrow> bool" where
  "keeps s =
     (\<forall>h h'. s h = Inr h' \<longrightarrow>
        (\<forall>a. cvalue (h' a) = cvalue (h a) \<and> nextPtr (h' a) = nextPtr (h a) \<and>
             visited (h' a) = visited (h a)))"

section \<open>Evaluation on concrete inputs\<close>

lemma upt_unroll: "[m..<numeral n] = (if m < numeral n then m # [m + 1..<numeral n] else [])"
  by (simp add: upt_conv_Cons)

lemma getLastNode_None: "nextPtr (h c) = None \<Longrightarrow> getLastNode h c = Some c"
  by (subst getLastNode.simps) simp

lemma getLastNode_Some: "nextPtr (h c) = Some n \<Longrightarrow> getLastNode h c = getLastNode h n"
  by (subst getLastNode.simps) simp

lemmas eval_simps =
  setNeighbors_def setNeighborsLayer_def setNeighborsNode_def setAdjacent_def cellAt_def skip_def
  isCorner_def SIDES_def newNode_def upt_unroll Let_def
  main_def buildGrid_def populateLinkedNodeArray_def emptyGrid_def getBucket_def ALPHABET_def word0_def
  substr1_def getLastNode_None getLastNode_Some searchNeighbors.simps searchList.simps

section \<open>The search leaves the store as it found it\<close>

lemma search_frame:
  "visited (h current) = False \<Longrightarrow> snd (searchNodes word (Some current) h) = h"
  "visited (h c) = True \<Longrightarrow> snd (searchNeighbors first rest c neighborN h) = h(c := (h c)\<lparr>visited := False\<rparr>)"
proof (induction word "Some current" h and first rest c neighborN h arbitrary: current rule: searchNodes_searchNeighbors.induct)
  case (2 current h)
  then show ?case by simp
next
  case (3 first rest current h)
  let ?h1 = "h(current := (h current)\<lparr>visited := True\<rparr>)"
  have "visited (?h1 current) = True" by simp
  from 3(1)[OF this]
  have "snd (searchNeighbors first rest current 0 ?h1) = ?h1(current := (?h1 current)\<lparr>visited := False\<rparr>)" .
  also have "\<dots> = h" using 3(2) by (simp add: fun_eq_iff)
  finally show ?case by simp
next
  case (4 first rest current neighborN h)
  show ?case
  proof (cases "neighborN < SIDES")
    case False
    then show ?thesis by (simp add: searchNeighbors.simps)
  next
    case lt: True
    show ?thesis
    proof (cases "adjacentList (h current) neighborN")
      case None
      with lt 4 show ?thesis by (simp add: searchNeighbors.simps[of _ _ _ neighborN])
    next
      case (Some neighbor)
      show ?thesis
      proof (cases "visited (h neighbor) = False \<and> cvalue (h neighbor) = first")
        case False
        with lt Some 4 show ?thesis by (auto simp add: searchNeighbors.simps[of _ _ _ neighborN])
      next
        case True
        then have fr: "snd (searchNodes rest (Some neighbor) h) = h"
          using 4(2)[OF lt Some] by simp
        obtain f h' where r: "searchNodes rest (Some neighbor) h = (f, h')" by fastforce
        with fr have h': "h' = h" by simp
        show ?thesis
        proof (cases f)
          case True
          with lt Some \<open>visited (h neighbor) = False \<and> cvalue (h neighbor) = first\<close> r h' show ?thesis by (simp add: searchNeighbors.simps[of _ _ _ neighborN])
        next
          case False
          have v: "visited (h' current) = True" using 4(5) h' by simp
          have "snd (searchNeighbors first rest current (Suc neighborN) h') = h'(current := (h' current)\<lparr>visited := False\<rparr>)"
            by (rule 4(3)[OF lt Some True refl r[symmetric] False v])
          then show ?thesis
            unfolding h' by (simp add: searchNeighbors.simps[of _ _ _ neighborN] lt Some True r h' False)
        qed
      qed
    qed
  qed
qed


text \<open>
  C3. Every call of the word search on a store in which no cell is marked on-path returns
  a store in which every cell's marker has its value from before the call, whether the call
  returns true or false.
\<close>

theorem searchNodes_restores_markers:
  assumes "\<forall>a. visited (h a) = False"
    and "searchNodes word current h = (found, h')"
  shows "\<forall>a. visited (h' a) = visited (h a)"
proof (cases current)
  case None
  with assms(2) show ?thesis by simp
next
  case (Some c)
  have "visited (h c) = False" using assms(1) by simp
  then have "snd (searchNodes word (Some c) h) = h" by (rule search_frame(1))
  with assms(2) Some have "h' = h" by simp
  then show ?thesis by simp
qed

theorem searchNodes_restores_markers_witness:
  "(\<forall>a. visited (twoCells a) = False) \<and>
   fst (searchNodes ''B'' (Some 0) twoCells) = True \<and>
   fst (searchNodes ''C'' (Some 0) twoCells) = False \<and>
   (\<forall>a. visited (snd (searchNodes ''B'' (Some 0) twoCells) a) = visited (twoCells a)) \<and>
   (\<forall>a. visited (snd (searchNodes ''C'' (Some 0) twoCells) a) = visited (twoCells a))"
proof -
  have u: "\<forall>a. visited (twoCells a) = False"
    by (simp add: twoCells_def newNode_def)
  have b: "fst (searchNodes ''B'' (Some 0) twoCells) = True"
    by (simp add: twoCells_def newNode_def SIDES_def searchNeighbors.simps)
  have c: "fst (searchNodes ''C'' (Some 0) twoCells) = False"
    by (simp add: twoCells_def newNode_def SIDES_def searchNeighbors.simps)
  show ?thesis
    using u b c
      searchNodes_restores_markers [OF u, of "''B''" "Some 0" True "snd (searchNodes ''B'' (Some 0) twoCells)"]
      searchNodes_restores_markers [OF u, of "''C''" "Some 0" False "snd (searchNodes ''C'' (Some 0) twoCells)"]
    by (metis prod.collapse)
qed

section \<open>The search finds exactly the simple paths\<close>

lemma searchNeighbors_step:
  assumes v: "visited (h c) = True" and lt: "k < SIDES"
  shows "fst (searchNeighbors first rest c k h) =
           (slotHit h first rest c k \<or> fst (searchNeighbors first rest c (Suc k) h))"
proof (cases "adjacentList (h c) k")
  case None
  then show ?thesis
    by (simp add: searchNeighbors.simps[of _ _ _ k] lt slotHit_def)
next
  case (Some n)
  show ?thesis
  proof (cases "visited (h n) = False \<and> cvalue (h n) = first")
    case False
    then show ?thesis
      by (auto simp add: searchNeighbors.simps[of _ _ _ k] lt Some slotHit_def)
  next
    case True
    obtain f h' where r: "searchNodes rest (Some n) h = (f, h')" by fastforce
    have h': "h' = h" using search_frame(1)[of h n rest] True r by simp
    show ?thesis
      by (cases f) (simp_all add: searchNeighbors.simps[of _ _ _ k] lt Some slotHit_def True r h')
  qed
qed

lemma searchNeighbors_found:
  assumes "visited (h c) = True"
  shows "fst (searchNeighbors first rest c k h) = (\<exists>j. k \<le> j \<and> j < SIDES \<and> slotHit h first rest c j)"
proof (induction "SIDES - k" arbitrary: k)
  case 0
  then have "\<not> k < SIDES" by simp
  then show ?case by (auto simp: searchNeighbors.simps[of _ _ _ k])
next
  case (Suc d)
  then have lt: "k < SIDES" and d: "d = SIDES - Suc k" by simp_all
  have "(\<exists>j. k \<le> j \<and> j < SIDES \<and> slotHit h first rest c j) =
        (slotHit h first rest c k \<or> (\<exists>j. Suc k \<le> j \<and> j < SIDES \<and> slotHit h first rest c j))"
    using lt by (metis Suc_leD Suc_le_eq le_eq_less_or_eq order_refl)
  then show ?case
    using searchNeighbors_step[of h c k first rest] assms lt Suc(1)[OF d] by simp
qed


lemma linked_iff: "linked h a b = (\<exists>k<SIDES. adjacentList (h a) k = Some b)"
  by (auto simp: linked_def list_ex_iff)

lemma linked_cong: "adjacentList (h' a) = adjacentList (h a) \<Longrightarrow> linked h' a b = linked h a b"
  by (simp add: linked_iff)

lemma neighborPath_cong:
  assumes "\<And>a. adjacentList (h' a) = adjacentList (h a)"
  shows "neighborPath h' p = neighborPath h p"
proof (induction p rule: induct_list012)
  case (3 x y zs)
  have "linked h' x y = linked h x y" by (rule linked_cong) (rule assms)
  then show ?case by (simp add: 3(2))
qed simp_all

lemma freePath_Nil: "freePath h c [] w = (w = [])"
  by (auto simp: freePath_def)

lemma freePath_Cons:
  "freePath h c (n # q) w =
     (\<exists>r. w = cvalue (h n) # r \<and> linked h c n \<and> n \<noteq> c \<and> c \<notin> set q \<and> visited (h n) = False
          \<and> freePath h n q r)"
  by (auto simp: freePath_def)

lemma freePath_mark:
  assumes "n \<noteq> c"
  shows "freePath (h(c := (h c)\<lparr>visited := True\<rparr>)) n q r = (freePath h n q r \<and> c \<notin> set q)"
proof -
  let ?h1 = "h(c := (h c)\<lparr>visited := True\<rparr>)"
  have np: "neighborPath ?h1 (n # q) = neighborPath h (n # q)"
    by (rule neighborPath_cong) simp
  have vis: "(\<forall>a\<in>set q. visited (?h1 a) = False) = ((\<forall>a\<in>set q. visited (h a) = False) \<and> c \<notin> set q)"
    by auto
  have "map (\<lambda>a. cvalue (?h1 a)) q = map (\<lambda>a. cvalue (h a)) q"
    by (rule map_cong) simp_all
  then show ?thesis
    unfolding freePath_def np vis by auto
qed

lemma searchNodes_paths:
  "visited (h c) = False \<Longrightarrow> fst (searchNodes word (Some c) h) = (\<exists>p. freePath h c p word)"
proof (induction word arbitrary: c h)
  case Nil
  have "freePath h c [] []" by (simp add: freePath_Nil)
  then show ?case by auto
next
  case (Cons first rest)
  let ?h1 = "h(c := (h c)\<lparr>visited := True\<rparr>)"
  have v1: "visited (?h1 c) = True" by simp
  have hit: "slotHit ?h1 first rest c j =
        (\<exists>n. adjacentList (h c) j = Some n \<and> n \<noteq> c \<and> visited (h n) = False \<and> cvalue (h n) = first
           \<and> (\<exists>q. freePath h n q rest \<and> c \<notin> set q))" for j
  proof -
    have "fst (searchNodes rest (Some n) ?h1) = (\<exists>q. freePath h n q rest \<and> c \<notin> set q)"
      if "n \<noteq> c" "visited (h n) = False" for n
    proof -
      have "visited (?h1 n) = False" using that by simp
      then have "fst (searchNodes rest (Some n) ?h1) = (\<exists>q. freePath ?h1 n q rest)"
        by (rule Cons.IH[of ?h1 n])
      then show ?thesis by (simp add: freePath_mark[OF that(1)])
    qed
    moreover have "adjacentList (?h1 c) j = adjacentList (h c) j" by simp
    moreover have "(visited (?h1 n) = False) = (n \<noteq> c \<and> visited (h n) = False)" for n by simp
    moreover have "n \<noteq> c \<Longrightarrow> cvalue (?h1 n) = cvalue (h n)" for n by simp
    ultimately show ?thesis
      unfolding slotHit_def by metis
  qed
  have "fst (searchNodes (first # rest) (Some c) h) = (\<exists>j<SIDES. slotHit ?h1 first rest c j)"
    by (simp add: searchNeighbors_found[of ?h1 c, OF v1])
  also have "\<dots> = (\<exists>n q. linked h c n \<and> n \<noteq> c \<and> visited (h n) = False \<and> cvalue (h n) = first
                       \<and> freePath h n q rest \<and> c \<notin> set q)"
    unfolding hit linked_iff by blast
  also have "\<dots> = (\<exists>n q. freePath h c (n # q) (first # rest))"
    unfolding freePath_Cons by blast
  also have "\<dots> = (\<exists>p. freePath h c p (first # rest))"
  proof
    assume "\<exists>p. freePath h c p (first # rest)"
    then obtain p where p: "freePath h c p (first # rest)" ..
    then have "p \<noteq> []" by (auto simp: freePath_Nil)
    then obtain n q where "p = n # q" by (cases p) auto
    with p show "\<exists>n q. freePath h c (n # q) (first # rest)" by blast
  qed blast
  finally show ?case .
qed


text \<open>
  C1. The word search of the driver for \<open>word\<close> from a start cell is the call
  \<^verbatim>\<open>searchNodes(linkedNodeArray, word.substr(1), current)\<close>, on a store without on-path
  markers and with a start cell taken from the list of the word's first letter, which
  carries that letter (lemma \<open>buildGrid_start_cells\<close>). It
  returns true if and only if there is a simple path through neighbour-linked cells that
  starts at the start cell and whose letters are the word.
\<close>

theorem search_iff_simple_path:
  assumes "\<forall>a. visited (h a) = False"
    and "substr1 word = Inr rest"
    and "cvalue (h start) = word0 word"
  shows "fst (searchNodes rest (Some start) h) = (\<exists>p. simplePath h start p word)"
proof -
  from assms(2) obtain first where w: "word = first # rest"
    by (auto simp: substr1_def split: list.splits)
  have f: "cvalue (h start) = first" using assms(3) w by (simp add: word0_def)
  have "fst (searchNodes rest (Some start) h) =
          (\<exists>p. distinct (start # p) \<and> neighborPath h (start # p) \<and> map (\<lambda>a. cvalue (h a)) p = rest)"
    using searchNodes_paths[of h start rest] assms(1) by (simp add: freePath_def)
  also have "\<dots> = (\<exists>p. simplePath h start p word)"
  proof
    assume "\<exists>p. distinct (start # p) \<and> neighborPath h (start # p) \<and> map (\<lambda>a. cvalue (h a)) p = rest"
    then obtain p where "distinct (start # p) \<and> neighborPath h (start # p) \<and> map (\<lambda>a. cvalue (h a)) p = rest" ..
    then have "simplePath h start (start # p) word"
      unfolding simplePath_def using f w by simp
    then show "\<exists>p. simplePath h start p word" ..
  next
    assume "\<exists>p. simplePath h start p word"
    then obtain p where p: "simplePath h start p word" ..
    then obtain q where "p = start # q" unfolding simplePath_def by (cases p) auto
    with p have "distinct (start # q) \<and> neighborPath h (start # q) \<and> map (\<lambda>a. cvalue (h a)) q = rest"
      unfolding simplePath_def using w by simp
    then show "\<exists>p. distinct (start # p) \<and> neighborPath h (start # p) \<and> map (\<lambda>a. cvalue (h a)) p = rest" ..
  qed
  finally show ?thesis .
qed


theorem search_iff_simple_path_witness:
  "(\<forall>a. visited (twoCells a) = False) \<and> substr1 ''AB'' = Inr ''B'' \<and>
   cvalue (twoCells 0) = word0 ''AB'' \<and>
   fst (searchNodes ''B'' (Some 0) twoCells) = True \<and>
   simplePath twoCells 0 [0, 1] ''AB'' \<and>
   (\<exists>p. simplePath twoCells 0 p ''AB'')"
proof -
  have u: "\<forall>a. visited (twoCells a) = False"
    by (simp add: twoCells_def newNode_def)
  have s: "substr1 ''AB'' = Inr ''B''"
    by (simp add: substr1_def)
  have v: "cvalue (twoCells 0) = word0 ''AB''"
    by (simp add: twoCells_def word0_def)
  have b: "fst (searchNodes ''B'' (Some 0) twoCells) = True"
    by (simp add: twoCells_def newNode_def SIDES_def searchNeighbors.simps)
  have p: "simplePath twoCells 0 [0, 1] ''AB''"
    by (simp add: simplePath_def linked_def twoCells_def newNode_def SIDES_def upt_unroll)
  show ?thesis
    using u s v b p search_iff_simple_path [OF u s v] by simp
qed

section \<open>Recursion depth\<close>

lemma depth_bound:
  "searchDepth word cur h \<le> length word"
  "neighborsDepth first rest c neighborN h \<le> Suc (length rest)"
proof (induction word cur h and first rest c neighborN h rule: searchDepth_neighborsDepth.induct)
  case (4 first rest current neighborN h)
  show ?case
  proof (cases "neighborN < SIDES")
    case False
    then show ?thesis by (simp add: neighborsDepth.simps[of _ _ _ neighborN])
  next
    case lt: True
    show ?thesis
    proof (cases "adjacentList (h current) neighborN")
      case None
      with lt 4(1) show ?thesis by (simp add: neighborsDepth.simps[of _ _ _ neighborN])
    next
      case (Some neighbor)
      show ?thesis
      proof (cases "visited (h neighbor) = False \<and> cvalue (h neighbor) = first")
        case False
        with lt Some 4(4) show ?thesis by (auto simp add: neighborsDepth.simps[of _ _ _ neighborN])
      next
        case True
        obtain f h' where r: "searchNodes rest (Some neighbor) h = (f, h')" by fastforce
        have d: "searchDepth rest (Some neighbor) h \<le> length rest"
          by (rule 4(2)[OF lt Some True refl r[symmetric]])
        show ?thesis
        proof (cases f)
          case t: True
          with lt Some True r d show ?thesis by (simp add: neighborsDepth.simps[of _ _ _ neighborN])
        next
          case f: False
          have "neighborsDepth first rest current (Suc neighborN) h' \<le> Suc (length rest)"
            by (rule 4(3)[OF lt Some True refl r[symmetric] refl f])
          with lt Some True r d f show ?thesis by (simp add: neighborsDepth.simps[of _ _ _ neighborN])
        qed
      qed
    qed
  qed
next
  case (3 first rest current h)
  show ?case by (simp add: 3)
qed simp_all



text \<open>
  C9. \<open>searchNodes\<close> is a total function: its termination proof shows that every call
  returns, on every word, start cell and store (cyclic neighbour links included), since
  each recursive call is on the word without its first character. The recursive calls
  below a call nest at most as deep as the word is long, whatever the size of the grid.
\<close>

theorem searchNodes_depth_bounded:
  "searchDepth word current h \<le> length word"
  by (rule depth_bound(1))

section \<open>The examples of the specification\<close>

text \<open>
  C7. On the grid with ring 0 = \<open>A\<close> and ring 1 = \<open>BCDEFG\<close> and the dictionary
  \<open>AB\<close>, \<open>AG\<close>, \<open>BC\<close>, \<open>XYZ\<close>, the program prints \<open>AB\<close>, \<open>AG\<close>, \<open>BC\<close> in this order;
  \<open>XYZ\<close> is not found.
\<close>

theorem main_two_rings:
  "main [''A'', ''BCDEFG''] [''AB'', ''AG'', ''BC'', ''XYZ''] = Some (Inr [''AB'', ''AG'', ''BC''])"
  by (simp add: eval_simps)

section \<open>The bucket index\<close>

lemma of_char_int_range: "0 \<le> (of_char v :: int) \<and> (of_char v :: int) < 256"
proof -
  have "(of_char v :: int) = int (of_char v)" by (simp add: of_nat_of_char)
  moreover have "(of_char v :: nat) < 256" by simp
  ultimately show ?thesis by linarith
qed

lemma sint_of_char:
  "sint (of_char v :: 8 word) = (if (of_char v :: int) < 128 then of_char v else of_char v - 256)"
proof -
  let ?k = "of_char v :: int"
  have r: "0 \<le> ?k \<and> ?k < 256" by (rule of_char_int_range)
  have "(of_char v :: 8 word) = word_of_int ?k" by (simp add: of_int_of_char)
  then have "sint (of_char v :: 8 word) = signed_take_bit 7 ?k"
    by (simp add: sint_sbintrunc')
  also have "\<dots> = (?k + 128) mod 256 - 128"
    by (simp add: signed_take_bit_eq_take_bit_shift take_bit_eq_mod)
  also have "\<dots> = (if ?k < 128 then ?k else ?k - 256)"
  proof (cases "?k < 128")
    case True
    then have "(?k + 128) mod 256 = ?k + 128" using r by (simp add: mod_pos_pos_trivial)
    with True show ?thesis by simp
  next
    case False
    have e: "?k + 128 = (?k - 128) + 256" by arith
    have "(?k + 128) mod 256 = ((?k - 128) + 256) mod 256" by (subst e) (rule refl)
    also have "\<dots> = (?k - 128) mod 256" by (rule mod_add_self2)
    also have "\<dots> = ?k - 128" using r False by (simp add: mod_pos_pos_trivial)
    finally show ?thesis using False by simp
  qed
  finally show ?thesis .
qed


lemma unat_getBucket:
  "int (unat (getBucket v)) =
     (if 65 \<le> (of_char v :: int) \<and> (of_char v :: int) < 128 then of_char v - 65
      else if (of_char v :: int) < 65 then 2 ^ 64 - 65 + of_char v
      else 2 ^ 64 - 65 - 256 + of_char v)"
proof -
  let ?k = "of_char v :: int"
  let ?s = "sint (of_char v :: 8 word)"
  have r: "0 \<le> ?k \<and> ?k < 256" by (rule of_char_int_range)
  have A: "sint (of_char CHR ''A'' :: 8 word) = 65" by simp
  have "int (unat (getBucket v)) = uint (getBucket v)" by simp
  also have "\<dots> = (?s - 65) mod 2 ^ 64"
    unfolding getBucket_def A by (simp only: uint_word_of_int) simp
  finally have u: "int (unat (getBucket v)) = (?s - 65) mod 2 ^ 64" .
  have neg: "x mod 2 ^ 64 = x + 2 ^ 64" if "- (2 ^ 64) \<le> x" "x < 0" for x :: int
  proof -
    have "x mod 2 ^ 64 = (x + 2 ^ 64) mod 2 ^ 64" by simp
    also have "\<dots> = x + 2 ^ 64" using that by (intro mod_pos_pos_trivial) simp_all
    finally show ?thesis .
  qed
  show ?thesis
  proof (cases "?k < 128")
    case True
    then have s: "?s = ?k" by (simp add: sint_of_char)
    show ?thesis
    proof (cases "65 \<le> ?k")
      case ge: True
      have "(?k - 65) mod 2 ^ 64 = ?k - 65"
        using ge True by (intro mod_pos_pos_trivial) simp_all
      with ge True show ?thesis unfolding u s by simp
    next
      case False
      have "(?k - 65) mod 2 ^ 64 = ?k - 65 + 2 ^ 64"
        using False r by (intro neg) simp_all
      with False True show ?thesis unfolding u s by simp
    qed
  next
    case False
    then have s: "?s = ?k - 256" by (simp add: sint_of_char)
    have "(?k - 256 - 65) mod 2 ^ 64 = ?k - 256 - 65 + 2 ^ 64"
      using False r by (intro neg) simp_all
    with False show ?thesis unfolding u s by simp
  qed
qed


lemma getBucket_in_range: "unat (getBucket v) < ALPHABET \<longleftrightarrow> isUpper v"
proof -
  let ?k = "of_char v :: int"
  have r: "0 \<le> ?k \<and> ?k < 256" by (rule of_char_int_range)
  have k: "?k = int (of_char v)" by (simp add: of_nat_of_char)
  have up: "isUpper v \<longleftrightarrow> 65 \<le> ?k \<and> ?k \<le> 90"
    unfolding isUpper_def less_eq_char_def k by simp
  have lt: "unat (getBucket v) < ALPHABET \<longleftrightarrow> int (unat (getBucket v)) < 26"
    unfolding ALPHABET_def by linarith
  show ?thesis
  proof (cases "65 \<le> ?k \<and> ?k < 128")
    case True
    then have "int (unat (getBucket v)) = ?k - 65" by (simp only: unat_getBucket True if_True simp_thms)
    then show ?thesis unfolding lt up using True by linarith
  next
    case False
    show ?thesis
    proof (cases "?k < 65")
      case True
      have "int (unat (getBucket v)) = 2 ^ 64 - 65 + ?k"
        by (simp only: unat_getBucket False True if_True if_False simp_thms)
      then have "\<not> int (unat (getBucket v)) < 26" using r by simp
      then show ?thesis unfolding lt up using True by linarith
    next
      case ge: False
      have "int (unat (getBucket v)) = 2 ^ 64 - 65 - 256 + ?k"
        by (simp only: unat_getBucket False ge if_True if_False simp_thms)
      then have "\<not> int (unat (getBucket v)) < 26" using r by simp
      moreover have "\<not> ?k \<le> 90" using False ge by linarith
      ultimately show ?thesis unfolding lt up by simp
    qed
  qed
qed

text \<open>
  C10. For a dictionary word the bucket index \<^verbatim>\<open>word[0] - 'A'\<close> is below the 26 entries of
  the bucket array if and only if the word is not empty and its first character is an
  uppercase letter from \<open>A\<close> to \<open>Z\<close>; for any other word the driver's bucket access is out
  of range.
\<close>

theorem driver_bucket_in_range:
  "(unat (getBucket (word0 word)) < ALPHABET \<longleftrightarrow> word \<noteq> [] \<and> isUpper (hd word)) \<and>
   (\<not> (word \<noteq> [] \<and> isUpper (hd word)) \<longrightarrow>
      searchDictionary lna (word # dictionary) found h = Some (Inl OutOfBounds))"
proof -
  have z: "\<not> isUpper (CHR 0x00)"
    by (simp add: isUpper_def less_eq_char_def)
  have r: "unat (getBucket (word0 word)) < ALPHABET \<longleftrightarrow> word \<noteq> [] \<and> isUpper (hd word)"
  proof (cases word)
    case Nil
    then show ?thesis using z by (simp add: getBucket_in_range word0_def)
  next
    case (Cons c cs)
    then show ?thesis by (simp add: getBucket_in_range word0_def)
  qed
  then show ?thesis by (simp add: Let_def)
qed

theorem driver_bucket_in_range_witness:
  "\<not> ([] \<noteq> ([] :: string) \<and> isUpper (hd [])) \<and>
   searchDictionary (\<lambda>_. None) [[], ''AB''] [] (\<lambda>_. newNode) = Some (Inl OutOfBounds) \<and>
   \<not> (''ab'' \<noteq> [] \<and> isUpper (hd ''ab'')) \<and>
   searchDictionary (\<lambda>_. None) [''ab''] [] (\<lambda>_. newNode) = Some (Inl OutOfBounds) \<and>
   unat (getBucket (word0 ''AB'')) < ALPHABET"
proof -
  have a: "\<not> ([] \<noteq> ([] :: string) \<and> isUpper (hd []))" by simp
  have b: "\<not> (''ab'' \<noteq> [] \<and> isUpper (hd ''ab''))"
    by (simp add: isUpper_def less_eq_char_def)
  have c: "''AB'' \<noteq> [] \<and> isUpper (hd ''AB'')"
    by (simp add: isUpper_def less_eq_char_def)
  show ?thesis
    using a b c
      driver_bucket_in_range [of "[]" "\<lambda>_. None" "[''AB'']" "[]" "\<lambda>_. newNode"]
      driver_bucket_in_range [of "''ab''" "\<lambda>_. None" "[]" "[]" "\<lambda>_. newNode"]
      driver_bucket_in_range [of "''AB''"]
    by blast
qed

section \<open>The honeycomb after setNeighbors\<close>

section \<open>Arithmetic of the hexagonal coordinates\<close>

lemma k6_cases:
  assumes "k < (6::nat)"
  obtains "k = 0" | "k = 1" | "k = 2" | "k = 3" | "k = 4" | "k = 5"
  using assms by linarith

lemma L_in0:
  assumes "k < (6::nat)" "m < r" "r * k + m < 6 * r - 1" "2 \<le> r"
  shows "(r - 1) * k + m < 6 * (r - 1)"
  using assms(1)
proof (cases rule: k6_cases)
  case 6
  with assms show ?thesis by (simp add: diff_mult_distrib) 
qed (use assms in \<open>simp_all add: diff_mult_distrib\<close>)

lemma L_in5:
  assumes "k < (6::nat)" "m < r" "0 < m"
  shows "(r - 1) * k + m - 1 < 6 * (r - 1)"
  using assms(1)
  by (cases rule: k6_cases) (use assms in \<open>simp_all add: diff_mult_distrib\<close>)

lemma L_out:
  assumes "k < (6::nat)" "m < r"
  shows "(r + 1) * k + m + 1 < 6 * (r + 1)"
  using assms(1)
  by (cases rule: k6_cases) (use assms in \<open>simp_all\<close>)

lemma L_out5:
  assumes "k < (6::nat)"
  shows "(r + 1) * k - 1 < 6 * (r + 1)"
  using assms(1)
  by (cases rule: k6_cases) (use assms in \<open>simp_all\<close>)

lemma div_lt6: "0 < (r::nat) \<Longrightarrow> p < 6 * r \<Longrightarrow> p div r < 6"
  by (simp add: less_mult_imp_div_less mult.commute)

text \<open>Index bounds: every neighbour coordinate lies in its layer.\<close>

lemma hexNeighbor_valid:
  assumes v: "validCell L r p" and n: "hexNeighbor L r p k = Some (r', p')"
  shows "validCell L r' p'"
proof (cases "r = 0")
  case True
  with v n show ?thesis
    by (auto simp: validCell_def hexNeighbor_def SIDES_def split: if_splits)
next
  case False
  then have r: "0 < r" by simp
  from v False have rL: "r < L" and p: "p < 6 * r" by (simp_all add: validCell_def SIDES_def)
  let ?k = "p div r" and ?m = "p mod r"
  have k: "?k < 6" using r p by (rule div_lt6)
  have m: "?m < r" using r by simp
  have pe: "r * ?k + ?m = p" by simp
  have in0: "(r - 1) * ?k + ?m < 6 * (r - 1)" if "p < 6 * r - 1" "2 \<le> r"
    using k m that pe by (intro L_in0) simp_all
  have in5: "(r - 1) * ?k + ?m - 1 < 6 * (r - 1)" if "0 < ?m"
    using k m that by (rule L_in5)
  have out3: "(r + 1) * ?k + ?m + 1 < 6 * (r + 1)"
    using k m by (rule L_out)
  have out5: "(r + 1) * ?k - 1 < 6 * (r + 1)"
    using k by (rule L_out5)
  consider "k = 0" | "k = 1" | "k = 2" | "k = 3" | "k = 4" | "k = 5" | "5 < k" by linarith
  then show ?thesis
  proof cases
    case 1
    show ?thesis
    proof (cases "r = 1")
      case True
      with 1 n r rL show ?thesis
        by (auto simp: validCell_def hexNeighbor_def SIDES_def split: if_splits)
    next
      case False
      with r have "2 \<le> r" by simp
      with 1 n r rL in0 show ?thesis
        by (auto simp: validCell_def hexNeighbor_def SIDES_def split: if_splits)
    qed
  next
    case 2
    with n r rL p show ?thesis
      by (auto simp: validCell_def hexNeighbor_def SIDES_def split: if_splits)
  next
    case 3
    with n r rL p show ?thesis
      by (auto simp: validCell_def hexNeighbor_def SIDES_def split: if_splits)
  next
    case 4
    with n r rL out3 show ?thesis
      by (auto simp: validCell_def hexNeighbor_def SIDES_def split: if_splits)
  next
    case 5
    with n r rL out3 show ?thesis
      by (auto simp: validCell_def hexNeighbor_def SIDES_def split: if_splits)
  next
    case 6
    show ?thesis
    proof (cases "isCorner r p")
      case True
      with 6 n r rL out5 show ?thesis
        by (auto simp: validCell_def hexNeighbor_def SIDES_def split: if_splits)
    next
      case False
      then have m0: "0 < ?m" using r by (simp add: isCorner_def)
      then have "2 \<le> r" using m by linarith
      with False 6 n r rL in5[OF m0] show ?thesis
        by (auto simp: validCell_def hexNeighbor_def SIDES_def split: if_splits)
    qed
  next
    case 7
    with n r show ?thesis by (simp add: hexNeighbor_def)
  qed
qed

text \<open>The neighbour that points back, case by case.\<close>

lemma back_inner_a:
  "0 < R \<Longrightarrow> m < R \<Longrightarrow> R < L - 1 \<Longrightarrow> hexNeighbor L R (R * k + m) 3 = Some (R + 1, (R + 1) * k + m)"
  by (simp add: hexNeighbor_def)

lemma back_inner_b:
  "0 < R \<Longrightarrow> R < L - 1 \<Longrightarrow> hexNeighbor L R (R * k + R) 5 = Some (R + 1, (R + 1) * k + R)"
proof -
  assume R: "0 < R" "R < L - 1"
  have e: "R * k + R = R * (k + 1)" by simp
  have "hexNeighbor L R (R * (k + 1)) 5 = Some (R + 1, (R + 1) * (k + 1) - 1)"
    using R by (simp add: hexNeighbor_def isCorner_def)
  then show ?thesis unfolding e by simp
qed

lemma back_inner_c:
  "0 < R \<Longrightarrow> R < L - 1 \<Longrightarrow> hexNeighbor L R 0 5 = Some (R + 1, 6 * R + 5)"
  by (simp add: hexNeighbor_def isCorner_def SIDES_def)

lemma back_inner_d:
  "0 < R \<Longrightarrow> m < R \<Longrightarrow> R < L - 1 \<Longrightarrow> hexNeighbor L R (R * k + m) 4 = Some (R + 1, (R + 1) * k + m + 1)"
  by (simp add: hexNeighbor_def)

lemma L_outT:
  assumes "k < (6::nat)" "m + 1 < T"
  shows "T * k + m + 1 < 6 * T"
  using assms(1)
  by (cases rule: k6_cases) (use assms in \<open>simp_all\<close>)

lemma div_mod_coord: "m < (T::nat) \<Longrightarrow> (T * k + m) div T = k \<and> (T * k + m) mod T = m"
  by simp

lemma back_outer_a:
  assumes "1 < T" "m + 1 < T" "k < 6"
  shows "hexNeighbor L T (T * k + m) 0 = Some (T - 1, (T - 1) * k + m)"
proof -
  have "T * k + m + 1 < 6 * T" using assms(3,2) by (rule L_outT)
  then have b: "T * k + m < SIDES * T - 1" by (simp add: SIDES_def)
  have m: "m < T" using assms(2) by simp
  show ?thesis
    unfolding hexNeighbor_def using assms(1) b div_mod_coord[OF m, of k] by simp
qed

lemma back_outer_b:
  assumes "1 < T" "m + 1 < T"
  shows "hexNeighbor L T (T * k + (m + 1)) 5 = Some (T - 1, (T - 1) * k + m)"
proof -
  have dm: "(T * k + (m + 1)) div T = k \<and> (T * k + (m + 1)) mod T = m + 1"
    using assms(2) by (rule div_mod_coord)
  then have "\<not> isCorner T (T * k + (m + 1))"
    using assms(1) by (simp add: isCorner_def)
  then show ?thesis
    unfolding hexNeighbor_def using assms(1) dm by simp
qed

lemma back_outer_c:
  assumes "1 < T" "k < 6"
  shows "hexNeighbor L T (T * k + (T - 1)) 0 = (if k < 5 then Some (T - 1, (T - 1) * k + (T - 1)) else Some (T - 1, 0))"
proof -
  have m: "T - 1 < T" using assms(1) by simp
  have dm: "(T * k + (T - 1)) div T = k \<and> (T * k + (T - 1)) mod T = T - 1"
    using m by (rule div_mod_coord)
  show ?thesis
  proof (cases "k < 5")
    case True
    then have "T * k \<le> T * 4" by (intro mult_le_mono2) simp
    then have "T * k + (T - 1) < SIDES * T - 1" using assms(1) unfolding SIDES_def by linarith
    then show ?thesis
      unfolding hexNeighbor_def using assms(1) dm True by simp
  next
    case False
    with assms(2) have k: "k = 5" by simp
    have "\<not> T * 5 + (T - 1) < SIDES * T - 1" by (simp add: SIDES_def)
    then show ?thesis
      unfolding hexNeighbor_def k using assms(1) by simp
  qed
qed

lemma back_left:
  "0 < r \<Longrightarrow> p < 6 * r \<Longrightarrow> hexNeighbor L r (if 0 < p then p - 1 else 6 * r - 1) 2 = Some (r, p)"
  by (auto simp: hexNeighbor_def SIDES_def)

lemma back_right:
  "0 < r \<Longrightarrow> p < 6 * r \<Longrightarrow> hexNeighbor L r (if p < 6 * r - 1 then p + 1 else 0) 1 = Some (r, p)"
  by (auto simp: hexNeighbor_def SIDES_def)

lemma back_centre:
  "hexNeighbor L 1 k 0 = Some (0, 0)"
  by (simp add: hexNeighbor_def)

lemma back_ring1:
  "1 < L \<Longrightarrow> p < 6 \<Longrightarrow> hexNeighbor L 0 0 p = Some (1, p)"
  by (simp add: hexNeighbor_def SIDES_def)

lemma hexNeighbor_sym:
  assumes v: "validCell L r p" and n: "hexNeighbor L r p k = Some (r', p')"
  shows "\<exists>k'<SIDES. hexNeighbor L r' p' k' = Some (r, p)"
proof (cases "r = 0")
  case True
  with v have p0: "p = 0" by (simp add: validCell_def)
  from n True have "r' = 1" by (auto simp: hexNeighbor_def split: if_splits)
  then have "hexNeighbor L r' p' 0 = Some (r, p)"
    using True p0 back_centre[of L p'] by simp
  then show ?thesis by (intro exI[of _ 0]) (simp add: SIDES_def)
next
  case False
  then have r: "0 < r" by simp
  from v False have rL: "r < L" and p: "p < 6 * r" by (simp_all add: validCell_def SIDES_def)
  define kk where "kk = p div r"
  define m where "m = p mod r"
  have kk: "kk < 6" unfolding kk_def using r p by (rule div_lt6)
  have m: "m < r" unfolding m_def using r by simp
  have pe: "p = r * kk + m" unfolding kk_def m_def by simp
  have nk: "hexNeighbor L r p k =
     (if k = 0 then Some (r - 1, if p < 6 * r - 1 then (r - 1) * kk + m else 0)
      else if k = 1 then Some (r, if 0 < p then p - 1 else 6 * r - 1)
      else if k = 2 then Some (r, if p < 6 * r - 1 then p + 1 else 0)
      else if k = 3 then (if r < L - 1 then Some (r + 1, (r + 1) * kk + m) else None)
      else if k = 4 then (if r < L - 1 then Some (r + 1, (r + 1) * kk + m + 1) else None)
      else if k = 5 then
        (if 0 < m then Some (r - 1, (r - 1) * kk + m - 1)
         else if r < L - 1 then
           Some (r + 1, if 0 < p then (r + 1) * kk - 1 else 6 * r + 5)
         else None)
      else None)"
    using r unfolding hexNeighbor_def kk_def m_def isCorner_def SIDES_def by simp
  have goal: ?thesis if "k' < 6" "hexNeighbor L r' p' k' = Some (r, p)" for k'
    using that by (intro exI[of _ k']) (simp add: SIDES_def)
  consider "k = 0" | "k = 1" | "k = 2" | "k = 3" | "k = 4" | "k = 5" | "5 < k" by linarith
  then show ?thesis
  proof cases
    case 1
    show ?thesis
    proof (cases "r = 1")
      case True
      with m have "m = 0" by simp
      with True n nk 1 have t: "r' = 0" "p' = 0" by (auto split: if_splits)
      have "hexNeighbor L 0 0 p = Some (1, p)" using rL p True by (intro back_ring1) simp_all
      with t True show ?thesis using p by (intro goal[of p]) simp_all
    next
      case False
      with r have R: "0 < r - 1" "r - 1 < L - 1" "r - 1 + 1 = r" using rL by simp_all
      show ?thesis
      proof (cases "p < 6 * r - 1")
        case lt: True
        with n nk 1 have t: "r' = r - 1" "p' = (r - 1) * kk + m" by simp_all
        show ?thesis
        proof (cases "m < r - 1")
          case True
          have "hexNeighbor L (r - 1) ((r - 1) * kk + m) 3 = Some (r - 1 + 1, (r - 1 + 1) * kk + m)"
            using R(1) True R(2) by (rule back_inner_a)
          then show ?thesis unfolding R(3) using t pe by (intro goal[of 3]) simp_all
        next
          case False
          with m have me: "m = r - 1" by simp
          have "hexNeighbor L (r - 1) ((r - 1) * kk + (r - 1)) 5 = Some (r - 1 + 1, (r - 1 + 1) * kk + (r - 1))"
            using R(1) R(2) by (rule back_inner_b)
          then show ?thesis unfolding R(3) using t pe me by (intro goal[of 5]) simp_all
        qed
      next
        case ge: False
        with n nk 1 have t: "r' = r - 1" "p' = 0" by simp_all
        from ge p have pl: "p = 6 * r - 1" by simp
        have "hexNeighbor L (r - 1) 0 5 = Some (r - 1 + 1, 6 * (r - 1) + 5)"
          using R(1) R(2) by (rule back_inner_c)
        moreover have "6 * (r - 1) + 5 = 6 * r - 1" using r by simp
        ultimately show ?thesis unfolding R(3) using t pl by (intro goal[of 5]) simp_all
      qed
    qed
  next
    case 2
    with n nk have t: "r' = r" "p' = (if 0 < p then p - 1 else 6 * r - 1)" by simp_all
    show ?thesis using back_left[OF r p, of L] by (intro goal[of 2]) (simp_all add: t)
  next
    case 3
    with n nk have t: "r' = r" "p' = (if p < 6 * r - 1 then p + 1 else 0)" by simp_all
    show ?thesis using back_right[OF r p, of L] by (intro goal[of 1]) (simp_all add: t)
  next
    case 4
    with n nk have t: "r' = r + 1" "p' = (r + 1) * kk + m" by (simp_all split: if_splits)
    have "hexNeighbor L (r + 1) ((r + 1) * kk + m) 0 = Some (r + 1 - 1, (r + 1 - 1) * kk + m)"
      using r m kk by (intro back_outer_a) simp_all
    then show ?thesis using t pe by (intro goal[of 0]) simp_all
  next
    case 5
    with n nk have t: "r' = r + 1" "p' = (r + 1) * kk + (m + 1)" by (simp_all split: if_splits)
    have "hexNeighbor L (r + 1) ((r + 1) * kk + (m + 1)) 5 = Some (r + 1 - 1, (r + 1 - 1) * kk + m)"
      using r m by (intro back_outer_b) simp_all
    then show ?thesis using t pe by (intro goal[of 5]) simp_all
  next
    case 6
    show ?thesis
    proof (cases "0 < m")
      case True
      with n nk 6 have t: "r' = r - 1" "p' = (r - 1) * kk + m - 1" by simp_all
      from True m have R: "0 < r - 1" "r - 1 < L - 1" "r - 1 + 1 = r" "m - 1 < r - 1" using rL by simp_all
      have e: "(r - 1) * kk + m - 1 = (r - 1) * kk + (m - 1)" using True by simp
      have "hexNeighbor L (r - 1) ((r - 1) * kk + (m - 1)) 4 = Some (r - 1 + 1, (r - 1 + 1) * kk + (m - 1) + 1)"
        using R(1) R(4) R(2) by (rule back_inner_d)
      then show ?thesis unfolding R(3) using t e pe True by (intro goal[of 4]) simp_all
    next
      case False
      then have m0: "m = 0" by simp
      with n nk 6 have rl: "r < L - 1" and t: "r' = r + 1" "p' = (if 0 < p then (r + 1) * kk - 1 else 6 * r + 5)"
        by (simp_all split: if_splits)
      show ?thesis
      proof (cases "0 < p")
        case True
        with pe m0 have "0 < kk" by (cases kk) simp_all
        then obtain j where j: "kk = j + 1" by (cases kk) auto
        with kk have j5: "j < 5" "j < 6" by simp_all
        have e: "(r + 1) * kk - 1 = (r + 1) * j + (r + 1 - 1)" unfolding j by simp
        have "hexNeighbor L (r + 1) ((r + 1) * j + (r + 1 - 1)) 0 =
                (if j < 5 then Some (r + 1 - 1, (r + 1 - 1) * j + (r + 1 - 1)) else Some (r + 1 - 1, 0))"
          using r j5(2) by (intro back_outer_c) simp_all
        then have "hexNeighbor L (r + 1) ((r + 1) * kk - 1) 0 = Some (r, r * j + r)"
          unfolding e using j5(1) by simp
        then show ?thesis using t True pe m0 j by (intro goal[of 0]) simp_all
      next
        case False
        then have p0: "p = 0" by simp
        have e: "6 * r + 5 = (r + 1) * 5 + (r + 1 - 1)" by simp
        have "hexNeighbor L (r + 1) ((r + 1) * 5 + (r + 1 - 1)) 0 =
                (if (5::nat) < 5 then Some (r + 1 - 1, (r + 1 - 1) * 5 + (r + 1 - 1)) else Some (r + 1 - 1, 0))"
          using r by (intro back_outer_c) simp_all
        then have "hexNeighbor L (r + 1) (6 * r + 5) 0 = Some (r, 0)"
          unfolding e by simp
        then show ?thesis using t p0 by (intro goal[of 0]) simp_all
      qed
    qed
  next
    case 7
    with n nk show ?thesis by simp
  qed
qed

lemma setSlots_setSlots: "setSlots cur g (setSlots cur f h) = setSlots cur (\<lambda>a. g (f a)) h"
  by (simp add: setSlots_def)

lemma setSlots_eqI:
  "(\<And>k. f (adjacentList (h cur)) k = g (adjacentList (h cur)) k) \<Longrightarrow> setSlots cur f h = setSlots cur g h"
  by (simp add: setSlots_def fun_eq_iff)

lemma setSlots_id: "h = setSlots cur (\<lambda>a. a) h"
  by (simp add: setSlots_def)

lemma hexShape_length:
  "hexShape pna \<Longrightarrow> r < length pna \<Longrightarrow> length (pna ! r) = (if r = 0 then 1 else SIDES * r)"
  by (simp add: hexShape_def list_all_iff)

lemma cellAt_valid:
  "hexShape pna \<Longrightarrow> validCell (length pna) i j \<Longrightarrow> cellAt pna i j = Inr (pna ! i ! j)"
  by (simp add: cellAt_def validCell_def hexShape_length)

lemma setAdjacent_valid:
  "hexShape pna \<Longrightarrow> validCell (length pna) i j \<Longrightarrow>
   setAdjacent pna cur slot i j h = Inr (setSlots cur (\<lambda>a. a(slot := Some (pna ! i ! j))) h)"
  by (simp add: setAdjacent_def cellAt_valid setSlots_def)

lemma setNeighborsNode_outer:
  assumes s: "hexShape pna" and v: "validCell (length pna) r p" and r: "0 < r"
  shows "setNeighborsNode pna (length pna) r (SIDES * r) p cur h =
           Inr (setSlots cur (nbrSlots pna r p) h)"
proof -
  let ?L = "length pna"
  note hv = hexNeighbor_valid[OF v]
  have f0: "validCell ?L (r - 1) (if p < SIDES * r - 1 then (r - 1) * (p div r) + p mod r else 0)"
    using hv[of 0] r by (simp add: hexNeighbor_def)
  have f1: "validCell ?L r (if 0 < p then p - 1 else SIDES * r - 1)"
    using hv[of 1] r by (simp add: hexNeighbor_def)
  have f2: "validCell ?L r (if p < SIDES * r - 1 then p + 1 else 0)"
    using hv[of 2] r by (simp add: hexNeighbor_def)
  have f3: "r < ?L - 1 \<Longrightarrow> validCell ?L (r + 1) ((r + 1) * (p div r) + p mod r)"
    using hv[of 3] r by (simp add: hexNeighbor_def)
  have f4: "r < ?L - 1 \<Longrightarrow> validCell ?L (r + 1) ((r + 1) * (p div r) + p mod r + 1)"
    using hv[of 4] r by (simp add: hexNeighbor_def)
  have f5i: "\<not> isCorner r p \<Longrightarrow> validCell ?L (r - 1) ((r - 1) * (p div r) + p mod r - 1)"
    using hv[of 5] r by (simp add: hexNeighbor_def)
  have f5o: "isCorner r p \<Longrightarrow> r < ?L - 1 \<Longrightarrow>
      validCell ?L (r + 1) (if 0 < p then (r + 1) * (p div r) - 1 else SIDES * r + SIDES - 1)"
    using hv[of 5] r by (simp add: hexNeighbor_def)
  note sa = setAdjacent_valid[OF s]
  show ?thesis
  proof (cases "r < ?L - 1")
    case outer: True
    show ?thesis
    proof (cases "isCorner r p")
      case True
      have "setNeighborsNode pna ?L r (SIDES * r) p cur h =
         Inr (setSlots cur (\<lambda>a. a(0 := Some (pna ! (r - 1) ! (if p < SIDES * r - 1 then (r - 1) * (p div r) + p mod r else 0)),
                                  1 := Some (pna ! r ! (if 0 < p then p - 1 else SIDES * r - 1)),
                                  2 := Some (pna ! r ! (if p < SIDES * r - 1 then p + 1 else 0)),
                                  5 := Some (pna ! (r + 1) ! (if 0 < p then (r + 1) * (p div r) - 1 else SIDES * r + SIDES - 1)),
                                  3 := Some (pna ! (r + 1) ! ((r + 1) * (p div r) + p mod r)),
                                  4 := Some (pna ! (r + 1) ! ((r + 1) * (p div r) + p mod r + 1)))) h)"
        using r outer True f0 f1 f2 f3 f4 f5o
        by (cases "p < SIDES * r - 1"; cases "0 < p")
           (simp_all add: setNeighborsNode_def sa skip_def setSlots_setSlots)
      also have "\<dots> = Inr (setSlots cur (nbrSlots pna r p) h)"
        using r outer True
        by (auto intro!: setSlots_eqI simp: nbrSlots_def hexNeighbor_def)
      finally show ?thesis .
    next
      case False
      have "setNeighborsNode pna ?L r (SIDES * r) p cur h =
         Inr (setSlots cur (\<lambda>a. a(0 := Some (pna ! (r - 1) ! (if p < SIDES * r - 1 then (r - 1) * (p div r) + p mod r else 0)),
                                  5 := Some (pna ! (r - 1) ! ((r - 1) * (p div r) + p mod r - 1)),
                                  1 := Some (pna ! r ! (if 0 < p then p - 1 else SIDES * r - 1)),
                                  2 := Some (pna ! r ! (if p < SIDES * r - 1 then p + 1 else 0)),
                                  3 := Some (pna ! (r + 1) ! ((r + 1) * (p div r) + p mod r)),
                                  4 := Some (pna ! (r + 1) ! ((r + 1) * (p div r) + p mod r + 1)))) h)"
        using r outer False f0 f1 f2 f3 f4 f5i
        by (cases "p < SIDES * r - 1"; cases "0 < p")
           (simp_all add: setNeighborsNode_def sa skip_def setSlots_setSlots)
      also have "\<dots> = Inr (setSlots cur (nbrSlots pna r p) h)"
        using r outer False
        by (auto intro!: setSlots_eqI simp: nbrSlots_def hexNeighbor_def)
      finally show ?thesis .
    qed
  next
    case last: False
    show ?thesis
    proof (cases "isCorner r p")
      case True
      have "setNeighborsNode pna ?L r (SIDES * r) p cur h =
         Inr (setSlots cur (\<lambda>a. a(0 := Some (pna ! (r - 1) ! (if p < SIDES * r - 1 then (r - 1) * (p div r) + p mod r else 0)),
                                  1 := Some (pna ! r ! (if 0 < p then p - 1 else SIDES * r - 1)),
                                  2 := Some (pna ! r ! (if p < SIDES * r - 1 then p + 1 else 0)))) h)"
        using r last True f0 f1 f2
        by (cases "p < SIDES * r - 1"; cases "0 < p")
           (simp_all add: setNeighborsNode_def sa skip_def setSlots_setSlots)
      also have "\<dots> = Inr (setSlots cur (nbrSlots pna r p) h)"
        using r last True
        by (auto intro!: setSlots_eqI simp: nbrSlots_def hexNeighbor_def)
      finally show ?thesis .
    next
      case False
      have "setNeighborsNode pna ?L r (SIDES * r) p cur h =
         Inr (setSlots cur (\<lambda>a. a(0 := Some (pna ! (r - 1) ! (if p < SIDES * r - 1 then (r - 1) * (p div r) + p mod r else 0)),
                                  5 := Some (pna ! (r - 1) ! ((r - 1) * (p div r) + p mod r - 1)),
                                  1 := Some (pna ! r ! (if 0 < p then p - 1 else SIDES * r - 1)),
                                  2 := Some (pna ! r ! (if p < SIDES * r - 1 then p + 1 else 0)))) h)"
        using r last False f0 f1 f2 f5i
        by (cases "p < SIDES * r - 1"; cases "0 < p")
           (simp_all add: setNeighborsNode_def sa skip_def setSlots_setSlots)
      also have "\<dots> = Inr (setSlots cur (nbrSlots pna r p) h)"
        using r last False
        by (auto intro!: setSlots_eqI simp: nbrSlots_def hexNeighbor_def)
      finally show ?thesis .
    qed
  qed
qed

lemma upt_SIDES: "[0..<SIDES] = [0, 1, 2, 3, 4, 5]"
  by (simp add: SIDES_def upt_unroll)

lemma setNeighborsNode_centre:
  assumes s: "hexShape pna" and L: "0 < length pna"
  shows "setNeighborsNode pna (length pna) 0 c 0 cur h = Inr (setSlots cur (nbrSlots pna 0 0) h)"
proof (cases "1 < length pna")
  case True
  have v: "validCell (length pna) (Suc 0) k" if "k < 6" for k
    using that True by (simp add: validCell_def SIDES_def)
  note sa = setAdjacent_valid[OF s v]
  have "setNeighborsNode pna (length pna) 0 c 0 cur h =
      Inr (setSlots cur (\<lambda>a. a(0 := Some (pna ! 1 ! 0), 1 := Some (pna ! 1 ! 1), 2 := Some (pna ! 1 ! 2),
                               3 := Some (pna ! 1 ! 3), 4 := Some (pna ! 1 ! 4), 5 := Some (pna ! 1 ! 5))) h)"
    using True by (simp add: setNeighborsNode_def upt_SIDES sa setSlots_setSlots)
  also have "\<dots> = Inr (setSlots cur (nbrSlots pna 0 0) h)"
    using True by (auto intro!: setSlots_eqI simp: nbrSlots_def hexNeighbor_def SIDES_def)
  finally show ?thesis .
next
  case False
  have "setSlots cur (nbrSlots pna 0 0) h = setSlots cur (\<lambda>a. a) h"
    using False by (auto intro!: setSlots_eqI simp: nbrSlots_def hexNeighbor_def)
  then show ?thesis
    using False by (simp add: setNeighborsNode_def skip_def setSlots_id[symmetric])
qed

lemma setNeighborsNode_valid:
  assumes s: "hexShape pna" and v: "validCell (length pna) r p"
  shows "setNeighborsNode pna (length pna) r (length (pna ! r)) p cur h =
           Inr (setSlots cur (nbrSlots pna r p) h)"
proof (cases "r = 0")
  case True
  with v have "p = 0" "0 < length pna" by (simp_all add: validCell_def)
  with True show ?thesis using setNeighborsNode_centre[OF s] by simp
next
  case False
  with v have "length (pna ! r) = SIDES * r" using s by (simp add: validCell_def hexShape_length)
  with False show ?thesis using setNeighborsNode_outer[OF s v] by simp
qed

lemma fold_concat: "fold f (concat xss) = fold (fold f) xss"
  by (induction xss) simp_all

lemma setSlots_apply:
  "setSlots b G h a = (if a = b then (h b)\<lparr>adjacentList := G (adjacentList (h b))\<rparr> else h a)"
  by (simp add: setSlots_def)

lemma run_map_fold:
  assumes "\<And>x h. x \<in> set xs \<Longrightarrow> s x h = Inr (g x h)"
  shows "run (map s xs) h = Inr (fold g xs h)"
  using assms by (induction xs arbitrary: h) simp_all

lemma setNeighborsLayer_valid:
  assumes s: "hexShape pna" and r: "r < length pna"
  shows "setNeighborsLayer pna (length pna) r h =
           Inr (fold (\<lambda>p. setSlots (pna ! r ! p) (nbrSlots pna r p)) [0..<length (pna ! r)] h)"
proof -
  have "(case cellAt pna r p of Inl e \<Rightarrow> Inl e
          | Inr current \<Rightarrow> setNeighborsNode pna (length pna) r (length (pna ! r)) p current h') =
        Inr (setSlots (pna ! r ! p) (nbrSlots pna r p) h')"
    if "p \<in> set [0..<length (pna ! r)]" for p h'
  proof -
    from that r s have v: "validCell (length pna) r p"
      by (simp add: validCell_def hexShape_length)
    show ?thesis
      by (simp add: cellAt_valid[OF s v] setNeighborsNode_valid[OF s v])
  qed
  then show ?thesis
    unfolding setNeighborsLayer_def Let_def by (rule run_map_fold)
qed

lemma setNeighbors_valid:
  assumes s: "hexShape pna"
  shows "setNeighbors pna h = Inr (fold (\<lambda>(a, F). setSlots a F) (cellUpdates pna) h)"
proof -
  have "setNeighbors pna h =
      Inr (fold (\<lambda>r. fold (\<lambda>p. setSlots (pna ! r ! p) (nbrSlots pna r p)) [0..<length (pna ! r)])
             [0..<length pna] h)"
    unfolding setNeighbors_def Let_def
    by (rule run_map_fold) (simp add: setNeighborsLayer_valid[OF s])
  also have "\<dots> = Inr (fold (\<lambda>(a, F). setSlots a F) (cellUpdates pna) h)"
    unfolding cellUpdates_def by (simp add: fold_concat fold_map comp_def)
  finally show ?thesis .
qed

lemma map_fst_cellUpdates: "map fst (cellUpdates pna) = concat pna"
proof -
  have "map fst (cellUpdates pna) = concat (map (\<lambda>r. map (\<lambda>p. pna ! r ! p) [0..<length (pna ! r)]) [0..<length pna])"
    unfolding cellUpdates_def by (simp add: map_concat comp_def)
  also have "\<dots> = concat (map (\<lambda>r. pna ! r) [0..<length pna])"
    by (simp add: map_nth)
  also have "\<dots> = concat pna"
    by (simp add: map_nth)
  finally show ?thesis .
qed

lemma fold_setSlots_other:
  "a \<notin> fst ` set ups \<Longrightarrow> fold (\<lambda>(a, F). setSlots a F) ups h a = h a"
proof (induction ups arbitrary: h)
  case Nil
  then show ?case by simp
next
  case (Cons u ups)
  obtain b G where u: "u = (b, G)" by (cases u)
  from Cons.prems u have ne: "a \<noteq> b" and notin: "a \<notin> fst ` set ups" by auto
  have "fold (\<lambda>(a, F). setSlots a F) (u # ups) h a = fold (\<lambda>(a, F). setSlots a F) ups (setSlots b G h) a"
    by (simp add: u)
  also have "\<dots> = setSlots b G h a" using notin by (rule Cons.IH)
  also have "\<dots> = h a" using ne by (simp add: setSlots_apply)
  finally show ?case .
qed

lemma fold_setSlots_at:
  "distinct (map fst ups) \<Longrightarrow> (a, F) \<in> set ups \<Longrightarrow>
   fold (\<lambda>(a, F). setSlots a F) ups h a = (h a)\<lparr>adjacentList := F (adjacentList (h a))\<rparr>"
proof (induction ups arbitrary: h)
  case Nil
  then show ?case by simp
next
  case (Cons u ups)
  obtain b G where u: "u = (b, G)" by (cases u)
  have step: "fold (\<lambda>(a, F). setSlots a F) (u # ups) h a = fold (\<lambda>(a, F). setSlots a F) ups (setSlots b G h) a"
    by (simp add: u)
  show ?case
  proof (cases "(a, F) = u")
    case True
    with u have ab: "b = a" "G = F" by simp_all
    from Cons.prems u ab have "a \<notin> fst ` set ups" by auto
    then have "fold (\<lambda>(a, F). setSlots a F) ups (setSlots b G h) a = setSlots b G h a"
      by (rule fold_setSlots_other)
    also have "\<dots> = (h a)\<lparr>adjacentList := F (adjacentList (h a))\<rparr>"
      by (simp add: setSlots_apply ab)
    finally show ?thesis unfolding step .
  next
    case False
    with Cons.prems have in': "(a, F) \<in> set ups" and d: "distinct (map fst ups)" by auto
    with Cons.prems u have ne: "a \<noteq> b" by force
    have "fold (\<lambda>(a, F). setSlots a F) ups (setSlots b G h) a =
            (setSlots b G h a)\<lparr>adjacentList := F (adjacentList (setSlots b G h a))\<rparr>"
      using d in' by (rule Cons.IH)
    also have "\<dots> = (h a)\<lparr>adjacentList := F (adjacentList (h a))\<rparr>"
      using ne by (simp add: setSlots_apply)
    finally show ?thesis unfolding step .
  qed
qed

lemma in_concatI: "x \<in> set xs \<Longrightarrow> xs \<in> set xss \<Longrightarrow> x \<in> set (concat xss)"
  by auto

lemma cellUpdates_mem:
  assumes r: "r < length pna" and p: "p < length (pna ! r)"
  shows "(pna ! r ! p, nbrSlots pna r p) \<in> set (cellUpdates pna)"
  unfolding cellUpdates_def
proof (rule in_concatI)
  show "(pna ! r ! p, nbrSlots pna r p) \<in> set (map (\<lambda>q. (pna ! r ! q, nbrSlots pna r q)) [0..<length (pna ! r)])"
    using p by simp
  show "map (\<lambda>q. (pna ! r ! q, nbrSlots pna r q)) [0..<length (pna ! r)]
          \<in> set (map (\<lambda>r. map (\<lambda>p. (pna ! r ! p, nbrSlots pna r p)) [0..<length (pna ! r)]) [0..<length pna])"
    using r by simp
qed

text \<open>The store after setNeighbors on a well-formed honeycomb of pairwise different cells.\<close>

lemma setNeighbors_result:
  assumes s: "hexShape pna" and d: "distinct (concat pna)"
  obtains h' where "setNeighbors pna h = Inr h'"
    and "\<And>r p. validCell (length pna) r p \<Longrightarrow>
           h' (pna ! r ! p) = (h (pna ! r ! p))\<lparr>adjacentList := nbrSlots pna r p (adjacentList (h (pna ! r ! p)))\<rparr>"
    and "\<And>a. a \<notin> set (concat pna) \<Longrightarrow> h' a = h a"
proof
  let ?h' = "fold (\<lambda>(a, F). setSlots a F) (cellUpdates pna) h"
  show "setNeighbors pna h = Inr ?h'" by (rule setNeighbors_valid[OF s])
  show "?h' (pna ! r ! p) = (h (pna ! r ! p))\<lparr>adjacentList := nbrSlots pna r p (adjacentList (h (pna ! r ! p)))\<rparr>"
    if "validCell (length pna) r p" for r p
  proof -
    from that s have "r < length pna" "p < length (pna ! r)"
      by (simp_all add: validCell_def hexShape_length)
    then have "(pna ! r ! p, nbrSlots pna r p) \<in> set (cellUpdates pna)" by (rule cellUpdates_mem)
    moreover have "distinct (map fst (cellUpdates pna))" using d by (simp add: map_fst_cellUpdates)
    ultimately show ?thesis by (rule fold_setSlots_at[rotated])
  qed
  show "?h' a = h a" if "a \<notin> set (concat pna)" for a
  proof -
    have "fst ` set (cellUpdates pna) = set (concat pna)"
      using map_fst_cellUpdates[of pna] by (metis set_map)
    with that show ?thesis by (intro fold_setSlots_other) simp
  qed
qed

lemma getLastNode_returns:
  assumes c: "chainInv h n"
  shows "\<exists>l. getLastNode h a = Some l \<and> nextPtr (h l) = None \<and> (a < n \<longrightarrow> l < n) \<and>
             getBucket (cvalue (h l)) = getBucket (cvalue (h a))"
proof (induction "n - a" arbitrary: a rule: less_induct)
  case less
  show ?case
  proof (cases "nextPtr (h a)")
    case None
    then have "getLastNode h a = Some a" by (rule getLastNode_None)
    with None show ?thesis by simp
  next
    case (Some b)
    with c have ab: "a < b" "b < n" "getBucket (cvalue (h b)) = getBucket (cvalue (h a))"
      by (auto simp: chainInv_def)
    then have "n - b < n - a" by simp
    from less[OF this] obtain l where l: "getLastNode h b = Some l" "nextPtr (h l) = None"
      "b < n \<longrightarrow> l < n" "getBucket (cvalue (h l)) = getBucket (cvalue (h b))" by blast
    have "getLastNode h a = getLastNode h b" using Some by (rule getLastNode_Some)
    with l ab show ?thesis by simp
  qed
qed

text \<open>The store with the node that \<^verbatim>\<open>new\<close> creates.\<close>

lemma chainInv_new:
  assumes "chainInv h n"
  shows "chainInv (h(n := newNode\<lparr>cvalue := v, layerN := ln, charN := cn\<rparr>)) n"
  using assms unfolding chainInv_def
  by (auto simp: newNode_def)

lemma chainInv_link:
  assumes c: "chainInv h n" and l: "l < n" "nextPtr (h l) = None"
    and b: "getBucket (cvalue (h n)) = getBucket (cvalue (h l))"
  shows "chainInv (h(l := (h l)\<lparr>nextPtr := Some n\<rparr>)) (Suc n)"
  unfolding chainInv_def
proof (intro allI impI)
  fix a b
  let ?h = "h(l := (h l)\<lparr>nextPtr := Some n\<rparr>)"
  assume n: "nextPtr (?h a) = Some b"
  have cv: "cvalue (?h x) = cvalue (h x)" for x by simp
  show "a < b \<and> b < Suc n \<and> getBucket (cvalue (?h b)) = getBucket (cvalue (?h a))"
  proof (cases "a = l")
    case True
    with n have "b = n" by simp
    with True l b show ?thesis unfolding cv by simp
  next
    case False
    with n have "nextPtr (h a) = Some b" by simp
    with c have "a < b \<and> b < n \<and> getBucket (cvalue (h b)) = getBucket (cvalue (h a))"
      unfolding chainInv_def by blast
    then show ?thesis unfolding cv by simp
  qed
qed

lemma chainInv_mono: "chainInv h n \<Longrightarrow> chainInv h (Suc n)"
  unfolding chainInv_def by (meson less_Suc_eq)

lemma cellsInv_push:
  assumes c: "cellsInv pna h n" and ln: "ln < length pna"
    and h': "\<And>a. a < n \<Longrightarrow> layerN (h' a) = layerN (h a) \<and> charN (h' a) = charN (h a)"
    and new: "layerN (h' n) = ln" "charN (h' n) = length (pna ! ln)"
    and adj: "\<And>a. adjacentList (h' a) = (\<lambda>_. None)" and vis: "\<And>a. visited (h' a) = False"
  shows "cellsInv (pna[ln := pna ! ln @ [n]]) h' (Suc n)"
proof -
  let ?pna = "pna[ln := pna ! ln @ [n]]"
  have "\<forall>i<length ?pna. \<forall>j<length (?pna ! i).
          ?pna ! i ! j < Suc n \<and> layerN (h' (?pna ! i ! j)) = i \<and> charN (h' (?pna ! i ! j)) = j"
  proof (intro allI impI)
  fix i j
  assume i: "i < length ?pna" and j: "j < length (?pna ! i)"
  show "?pna ! i ! j < Suc n \<and> layerN (h' (?pna ! i ! j)) = i \<and> charN (h' (?pna ! i ! j)) = j"
  proof (cases "i = ln \<and> j = length (pna ! ln)")
    case True
    then have "?pna ! i ! j = n" using ln by simp
    with True new show ?thesis by simp
  next
    case False
    have old: "?pna ! i ! j = pna ! i ! j \<and> i < length pna \<and> j < length (pna ! i)"
    proof (cases "i = ln")
      case True
      with False j ln have "j < length (pna ! ln)" by simp
      with True ln show ?thesis by (simp add: nth_append)
    next
      case ne: False
      with i j show ?thesis by simp
    qed
    with c have "pna ! i ! j < n \<and> layerN (h (pna ! i ! j)) = i \<and> charN (h (pna ! i ! j)) = j"
      unfolding cellsInv_def by blast
    with old h'[of "pna ! i ! j"] show ?thesis by simp
  qed
  qed
  then show ?thesis unfolding cellsInv_def using adj vis by simp
qed

lemma headsInv_new:
  assumes "headsInv lna h n" and "cvalue (h' n) = v" and "\<And>a. a < n \<Longrightarrow> cvalue (h' a) = cvalue (h a)"
  shows "headsInv (lna(unat (getBucket v) := Some n)) h' (Suc n)"
  using assms unfolding headsInv_def by (auto simp: less_Suc_eq)

lemma headsInv_keep:
  assumes "headsInv lna h n" and "\<And>a. a < n \<Longrightarrow> cvalue (h' a) = cvalue (h a)"
    and "lna (unat (getBucket (cvalue (h' n)))) \<noteq> None"
  shows "headsInv lna h' (Suc n)"
  using assms unfolding headsInv_def by (auto simp: less_Suc_eq)

lemma populateLayer_inv:
  assumes "gridInv g" and "ln < length (positionNodeArray g)"
    and "cn = length (positionNodeArray g ! ln)"
  shows "if (\<forall>c\<in>set layer. isUpper c)
         then (\<exists>g'. populateLayer ln layer cn g = Some (Inr g') \<and> gridInv g' \<and>
                 map length (positionNodeArray g') =
                   (map length (positionNodeArray g))[ln := cn + length layer])
         else populateLayer ln layer cn g = Some (Inl OutOfBounds)"
  using assms
proof (induction layer arbitrary: g cn)
  case Nil
  then show ?case by (auto simp: list_eq_iff_nth_eq nth_list_update)
next
  case (Cons v layer)
  let ?new = "allocated g"
  let ?h1 = "(nodes g)(?new := newNode\<lparr>cvalue := v, layerN := ln, charN := cn\<rparr>)"
  let ?pna = "(positionNodeArray g)[ln := positionNodeArray g ! ln @ [?new]]"
  let ?b = "unat (getBucket v)"
  from Cons.prems(1) have ci: "chainInv (nodes g) ?new"
    and hi: "headsInv (linkedNodeArray g) (nodes g) ?new"
    and ce: "cellsInv (positionNodeArray g) (nodes g) ?new"
    by (simp_all add: gridInv_def)
  note ln = Cons.prems(2) and cn = Cons.prems(3)
  show ?case
  proof (cases "isUpper v")
    case False
    then have "\<not> ?b < ALPHABET" by (simp add: getBucket_in_range)
    with False ln show ?thesis by (simp add: Let_def)
  next
    case up: True
    then have bl: "?b < ALPHABET" by (simp add: getBucket_in_range)
    have c1: "chainInv ?h1 ?new" using ci by (rule chainInv_new)
    have adj0: "\<And>a. adjacentList (nodes g a) = (\<lambda>_. None)" and vis0: "\<And>a. visited (nodes g a) = False"
      using ce by (simp_all add: cellsInv_def)
    have ln1: "ln < length ?pna" using ln by simp
    have cn1: "Suc cn = length (?pna ! ln)" using ln cn by simp
    have len1: "(map length ?pna)[ln := Suc cn + length layer] =
                (map length (positionNodeArray g))[ln := cn + length (v # layer)]"
      using ln by (simp add: map_update)
    show ?thesis
    proof (cases "linkedNodeArray g ?b")
      case None
      let ?g1 = "\<lparr>positionNodeArray = ?pna, linkedNodeArray = (linkedNodeArray g)(?b := Some ?new),
                  nodes = ?h1, allocated = Suc ?new\<rparr>"
      have step: "populateLayer ln (v # layer) cn g = populateLayer ln layer (Suc cn) ?g1"
        using ln bl None by (simp add: Let_def)
      have "chainInv ?h1 (Suc ?new)" using c1 by (rule chainInv_mono)
      moreover have "headsInv ((linkedNodeArray g)(?b := Some ?new)) ?h1 (Suc ?new)"
        using hi by (rule headsInv_new) simp_all
      moreover have "cellsInv ?pna ?h1 (Suc ?new)"
        using ce ln by (rule cellsInv_push) (simp_all add: cn adj0 vis0 newNode_def)
      ultimately have g1: "gridInv ?g1" by (simp add: gridInv_def)
      have l1: "ln < length (positionNodeArray ?g1)" using ln1 by simp
      have c1': "Suc cn = length (positionNodeArray ?g1 ! ln)" using cn1 by simp
      note IH = Cons.IH[OF g1 l1 c1']
      show ?thesis
      proof (cases "\<forall>c\<in>set layer. isUpper c")
        case True
        with IH obtain g' where "populateLayer ln layer (Suc cn) ?g1 = Some (Inr g')" "gridInv g'"
          "map length (positionNodeArray g') = (map length ?pna)[ln := Suc cn + length layer]"
          by auto
        with True up step len1 show ?thesis by simp
      next
        case False
        with IH have "populateLayer ln layer (Suc cn) ?g1 = Some (Inl OutOfBounds)" by simp
        with False step show ?thesis by simp
      qed
    next
      case (Some head)
      with hi have hd: "head < ?new" "unat (getBucket (cvalue (nodes g head))) = ?b"
        by (auto simp: headsInv_def)
      from getLastNode_returns[OF c1, of head] obtain l where
        l: "getLastNode ?h1 head = Some l" "nextPtr (?h1 l) = None" "l < ?new"
           "getBucket (cvalue (?h1 l)) = getBucket (cvalue (?h1 head))"
        using hd(1) by blast
      let ?h2 = "?h1(l := (?h1 l)\<lparr>nextPtr := Some ?new\<rparr>)"
      let ?g1 = "\<lparr>positionNodeArray = ?pna, linkedNodeArray = linkedNodeArray g,
                  nodes = ?h2, allocated = Suc ?new\<rparr>"
      have step: "populateLayer ln (v # layer) cn g = populateLayer ln layer (Suc cn) ?g1"
        using ln bl Some l(1) by (simp add: Let_def)
      have "getBucket (cvalue (?h1 head)) = getBucket v"
        using hd by (simp add: word_unat_eq_iff)
      with l(4) have bk: "getBucket (cvalue (?h1 ?new)) = getBucket (cvalue (?h1 l))" by simp
      have "chainInv ?h2 (Suc ?new)"
        using c1 l(3) l(2) bk by (rule chainInv_link)
      moreover have "headsInv (linkedNodeArray g) ?h2 (Suc ?new)"
        using hi by (rule headsInv_keep) (use l(3) Some in \<open>simp_all\<close>)
      moreover have "cellsInv ?pna ?h2 (Suc ?new)"
        using ce ln by (rule cellsInv_push) (use l(3) in \<open>simp_all add: cn adj0 vis0 newNode_def\<close>)
      ultimately have g1: "gridInv ?g1" by (simp add: gridInv_def)
      have l1: "ln < length (positionNodeArray ?g1)" using ln1 by simp
      have c1': "Suc cn = length (positionNodeArray ?g1 ! ln)" using cn1 by simp
      note IH = Cons.IH[OF g1 l1 c1']
      show ?thesis
      proof (cases "\<forall>c\<in>set layer. isUpper c")
        case True
        with IH obtain g' where "populateLayer ln layer (Suc cn) ?g1 = Some (Inr g')" "gridInv g'"
          "map length (positionNodeArray g') = (map length ?pna)[ln := Suc cn + length layer]"
          by auto
        with True up step len1 show ?thesis by simp
      next
        case False
        with IH have "populateLayer ln layer (Suc cn) ?g1 = Some (Inl OutOfBounds)" by simp
        with False step show ?thesis by simp
      qed
    qed
  qed
qed

lemma cellsInv_new_layer: "cellsInv pna h n \<Longrightarrow> cellsInv (pna @ [[]]) h n"
  unfolding cellsInv_def by (auto simp: nth_append less_Suc_eq)

lemma populateLayers_inv:
  assumes "gridInv g" and "length (positionNodeArray g) = ln"
  shows "if (\<forall>layer\<in>set layers. \<forall>c\<in>set layer. isUpper c)
         then (\<exists>g'. populateLayers layers ln g = Some (Inr g') \<and> gridInv g' \<and>
                 map length (positionNodeArray g') =
                   map length (positionNodeArray g) @ map length layers)
         else populateLayers layers ln g = Some (Inl OutOfBounds)"
  using assms
proof (induction layers arbitrary: g ln)
  case Nil
  then show ?case by simp
next
  case (Cons layer layers)
  let ?g0 = "g\<lparr>positionNodeArray := positionNodeArray g @ [[]]\<rparr>"
  have g0: "gridInv ?g0"
    using Cons.prems(1) by (simp add: gridInv_def cellsInv_new_layer)
  have l0: "ln < length (positionNodeArray ?g0)" using Cons.prems(2) by simp
  have c0: "0 = length (positionNodeArray ?g0 ! ln)" using Cons.prems(2) by (simp add: nth_append)
  note L = populateLayer_inv[OF g0 l0 c0, of layer]
  show ?case
  proof (cases "\<forall>c\<in>set layer. isUpper c")
    case False
    with L have "populateLayer ln layer 0 ?g0 = Some (Inl OutOfBounds)" by simp
    with False show ?thesis by simp
  next
    case True
    with L obtain g1 where g1: "populateLayer ln layer 0 ?g0 = Some (Inr g1)" "gridInv g1"
      "map length (positionNodeArray g1) = (map length (positionNodeArray ?g0))[ln := 0 + length layer]"
      by auto
    have len1: "map length (positionNodeArray g1) = map length (positionNodeArray g) @ [length layer]"
      using g1(3) Cons.prems(2) by (simp add: list_update_append)
    then have "length (map length (positionNodeArray g1)) = Suc ln"
      using Cons.prems(2) by simp
    then have l1: "length (positionNodeArray g1) = Suc ln" by simp
    note IH = Cons.IH[OF g1(2) l1]
    have step: "populateLayers (layer # layers) ln g = populateLayers layers (Suc ln) g1"
      using g1(1) by simp
    show ?thesis
    proof (cases "\<forall>layer\<in>set layers. \<forall>c\<in>set layer. isUpper c")
      case all: True
      with IH obtain g' where "populateLayers layers (Suc ln) g1 = Some (Inr g')" "gridInv g'"
        "map length (positionNodeArray g') = map length (positionNodeArray g1) @ map length layers"
        by auto
      with True all step len1 show ?thesis by simp
    next
      case False
      with IH have "populateLayers layers (Suc ln) g1 = Some (Inl OutOfBounds)" by simp
      with False step show ?thesis by simp
    qed
  qed
qed

lemma gridInv_emptyGrid: "gridInv emptyGrid"
  by (simp add: gridInv_def emptyGrid_def chainInv_def headsInv_def cellsInv_def newNode_def)

lemma populate_result:
  "if (\<forall>layer\<in>set layers. \<forall>c\<in>set layer. isUpper c)
   then (\<exists>g. populateLinkedNodeArray layers emptyGrid = Some (Inr g) \<and> gridInv g \<and>
           map length (positionNodeArray g) = map length layers)
   else populateLinkedNodeArray layers emptyGrid = Some (Inl OutOfBounds)"
proof -
  have e: "positionNodeArray emptyGrid = []" by (simp add: emptyGrid_def)
  then have "length (positionNodeArray emptyGrid) = 0" by simp
  from populateLayers_inv[OF gridInv_emptyGrid this, of layers]
  show ?thesis by (auto simp add: populateLinkedNodeArray_def e split: if_splits)
qed

lemma hexShape_cong: "map length xs = map length ys \<Longrightarrow> hexShape xs = hexShape ys"
proof -
  assume e: "map length xs = map length ys"
  then have l: "length xs = length ys" by (metis length_map)
  have "length (xs ! r) = length (ys ! r)" if "r < length xs" for r
    using e that l by (metis nth_map)
  then show ?thesis unfolding hexShape_def list_all_iff using l by auto
qed

lemma distinct_index_pairs:
  "distinct is \<Longrightarrow> distinct (concat (map (\<lambda>i. map (Pair i) [0..<n i]) is))"
proof (induction "is")
  case Nil
  then show ?case by simp
next
  case (Cons i "is")
  have "distinct (map (Pair i) [0..<n i])" by (simp add: distinct_map inj_on_def)
  moreover have "set (map (Pair i) [0..<n i]) \<inter> set (concat (map (\<lambda>i. map (Pair i) [0..<n i]) is)) = {}"
    using Cons.prems by auto
  ultimately show ?case using Cons by simp
qed

lemma cellsInv_distinct:
  assumes "cellsInv pna h n"
  shows "distinct (concat pna)"
proof -
  let ?f = "\<lambda>a. (layerN (h a), charN (h a))"
  have row: "map ?f (pna ! i) = map (Pair i) [0..<length (pna ! i)]" if "i < length pna" for i
  proof (rule nth_equalityI)
    show "length (map ?f (pna ! i)) = length (map (Pair i) [0..<length (pna ! i)])" by simp
    fix j assume "j < length (map ?f (pna ! i))"
    then have j: "j < length (pna ! i)" by simp
    with assms that have "layerN (h (pna ! i ! j)) = i \<and> charN (h (pna ! i ! j)) = j"
      unfolding cellsInv_def by blast
    with j show "map ?f (pna ! i) ! j = map (Pair i) [0..<length (pna ! i)] ! j" by simp
  qed
  have "map ?f (concat pna) = concat (map (map ?f) pna)" by (simp add: map_concat)
  also have "map (map ?f) pna = map (\<lambda>i. map ?f (pna ! i)) [0..<length pna]"
    by (rule nth_equalityI) simp_all
  also have "\<dots> = map (\<lambda>i. map (Pair i) [0..<length (pna ! i)]) [0..<length pna]"
    using row by simp
  finally have "map ?f (concat pna) =
      concat (map (\<lambda>i. map (Pair i) [0..<length (pna ! i)]) [0..<length pna])" .
  moreover have "distinct (concat (map (\<lambda>i. map (Pair i) [0..<length (pna ! i)]) [0..<length pna]))"
    by (rule distinct_index_pairs) simp
  ultimately have "distinct (map ?f (concat pna))" by simp
  then show ?thesis by (simp add: distinct_map)
qed

lemma in_concat_nth:
  "a \<in> set (concat xss) \<Longrightarrow> \<exists>i<length xss. \<exists>j<length (xss ! i). a = xss ! i ! j"
proof -
  assume "a \<in> set (concat xss)"
  then obtain xs where xs: "xs \<in> set xss" "a \<in> set xs" by auto
  then obtain i where i: "i < length xss" "xs = xss ! i" by (auto simp: in_set_conv_nth)
  from xs(2) obtain j where "j < length xs" "a = xs ! j" by (auto simp: in_set_conv_nth)
  with i show ?thesis by blast
qed

lemma wellBuilt_adj:
  "wellBuilt L g \<Longrightarrow> validCell L r p \<Longrightarrow>
   adjacentList (nodes g (positionNodeArray g ! r ! p)) k =
     (case hexNeighbor L r p k of None \<Rightarrow> None | Some (i, j) \<Rightarrow> Some (positionNodeArray g ! i ! j))"
  unfolding wellBuilt_def by blast

lemma wellBuilt_coord:
  "wellBuilt L g \<Longrightarrow> validCell L r p \<Longrightarrow>
   layerN (nodes g (positionNodeArray g ! r ! p)) = r \<and> charN (nodes g (positionNodeArray g ! r ! p)) = p"
  unfolding wellBuilt_def by blast

lemma wellBuilt_cell:
  "wellBuilt L g \<Longrightarrow> a \<in> set (concat (positionNodeArray g)) \<Longrightarrow>
   \<exists>r p. validCell L r p \<and> a = positionNodeArray g ! r ! p"
  unfolding wellBuilt_def by blast

lemma buildGrid_wellformed:
  assumes s: "hexShape layers" and u: "\<forall>layer\<in>set layers. \<forall>c\<in>set layer. isUpper c"
  shows "\<exists>g. buildGrid layers = Some (Inr g) \<and> wellBuilt (length layers) g"
proof -
  from populate_result[of layers] u obtain g0 where
    g0: "populateLinkedNodeArray layers emptyGrid = Some (Inr g0)" "gridInv g0"
        "map length (positionNodeArray g0) = map length layers"
    by auto
  let ?pna = "positionNodeArray g0"
  let ?h = "nodes g0"
  let ?L = "length layers"
  have len: "length ?pna = ?L" using g0(3) by (metis length_map)
  have sh: "hexShape ?pna" using s hexShape_cong[OF g0(3)] by simp
  have ci: "cellsInv ?pna ?h (allocated g0)" using g0(2) by (simp add: gridInv_def)
  have d: "distinct (concat ?pna)" using ci by (rule cellsInv_distinct)
  have vc: "r < length ?pna \<and> p < length (?pna ! r)" if "validCell ?L r p" for r p
    using that sh len by (simp add: validCell_def hexShape_length)
  have cv: "validCell ?L r p" if "r < length ?pna" "p < length (?pna ! r)" for r p
    using that sh len by (simp add: validCell_def hexShape_length)
  from setNeighbors_result[OF sh d, of ?h] obtain h' where
    h': "setNeighbors ?pna ?h = Inr h'"
        "\<And>r p. validCell (length ?pna) r p \<Longrightarrow>
           h' (?pna ! r ! p) = (?h (?pna ! r ! p))\<lparr>adjacentList := nbrSlots ?pna r p (adjacentList (?h (?pna ! r ! p)))\<rparr>"
        "\<And>a. a \<notin> set (concat ?pna) \<Longrightarrow> h' a = ?h a"
    by blast
  have adj0: "adjacentList (?h a) = (\<lambda>_. None)" for a using ci by (simp add: cellsInv_def)
  have vis0: "visited (?h a) = False" for a using ci by (simp add: cellsInv_def)
  have cell: "h' (?pna ! r ! p) = (?h (?pna ! r ! p))\<lparr>adjacentList := nbrSlots ?pna r p (\<lambda>_. None)\<rparr>"
    if "validCell ?L r p" for r p
    using h'(2)[of r p] that len adj0 by simp
  let ?g = "g0\<lparr>nodes := h'\<rparr>"
  have f1: "buildGrid layers = Some (Inr ?g)" by (simp add: buildGrid_def g0(1) h'(1))
  have f3: "adjacentList (nodes ?g (positionNodeArray ?g ! r ! p)) k =
             (case hexNeighbor ?L r p k of
                None \<Rightarrow> None
              | Some (i, j) \<Rightarrow> Some (positionNodeArray ?g ! i ! j))"
    if "validCell ?L r p" for r p k
    using cell[OF that] len by (simp add: nbrSlots_def split: option.splits)
  have f4: "layerN (nodes ?g (positionNodeArray ?g ! r ! p)) = r \<and>
          charN (nodes ?g (positionNodeArray ?g ! r ! p)) = p"
    if "validCell ?L r p" for r p
  proof -
    from vc[OF that] ci have "layerN (?h (?pna ! r ! p)) = r \<and> charN (?h (?pna ! r ! p)) = p"
      unfolding cellsInv_def by blast
    then show ?thesis using cell[OF that] by simp
  qed
  have f5: "\<exists>r p. validCell ?L r p \<and> a = positionNodeArray ?g ! r ! p"
    if "a \<in> set (concat (positionNodeArray ?g))" for a
  proof -
    from that have "a \<in> set (concat ?pna)" by simp
    from in_concat_nth[OF this] obtain i j where ij: "i < length ?pna" "j < length (?pna ! i)" "a = ?pna ! i ! j"
      by blast
    have "validCell ?L i j" using ij(1,2) by (rule cv)
    with ij(3) show ?thesis by auto
  qed
  have f6: "visited (nodes ?g a) = False" for a
  proof (cases "a \<in> set (concat ?pna)")
    case True
    from in_concat_nth[OF this] obtain i j where ij: "i < length ?pna" "j < length (?pna ! i)" "a = ?pna ! i ! j"
      by blast
    have "validCell ?L i j" using ij(1,2) by (rule cv)
    from cell[OF this] show ?thesis using vis0 ij(3) by simp
  next
    case False
    with h'(3)[OF False] vis0 show ?thesis by simp
  qed
  have "wellBuilt ?L ?g"
    unfolding wellBuilt_def
  proof (intro conjI)
    show "length (positionNodeArray ?g) = ?L" using len by simp
    show "\<forall>r p k. validCell ?L r p \<longrightarrow>
         adjacentList (nodes ?g (positionNodeArray ?g ! r ! p)) k =
           (case hexNeighbor ?L r p k of
              None \<Rightarrow> None
            | Some (i, j) \<Rightarrow> Some (positionNodeArray ?g ! i ! j))"
      by (intro allI impI) (rule f3)
    show "\<forall>r p. validCell ?L r p \<longrightarrow>
         layerN (nodes ?g (positionNodeArray ?g ! r ! p)) = r \<and>
         charN (nodes ?g (positionNodeArray ?g ! r ! p)) = p"
      by (intro allI impI) (rule f4)
    show "\<forall>a\<in>set (concat (positionNodeArray ?g)).
         \<exists>r p. validCell ?L r p \<and> a = positionNodeArray ?g ! r ! p"
      by (intro ballI) (rule f5)
    show "\<forall>a. visited (nodes ?g a) = False"
      by (intro allI) (rule f6)
  qed
  with f1 show ?thesis by (intro exI[of _ ?g] conjI)
qed

lemma upper_layers_iff:
  "list_all (list_all isUpper) layers \<longleftrightarrow> (\<forall>layer\<in>set layers. \<forall>c\<in>set layer. isUpper c)"
  by (simp add: list_all_iff)

text \<open>
  C2 (as amended). On a well-formed honeycomb (ring 0 has one cell, ring \<open>r > 0\<close> has
  \<open>6 r\<close> cells, every character is an uppercase letter) the builder and setNeighbors
  return a grid, and in it the neighbour relation is symmetric: whenever a slot of a cell
  \<open>A\<close> points to a cell \<open>B\<close>, a slot of \<open>B\<close> points back to \<open>A\<close>.
\<close>

theorem neighbors_symmetric_wellformed:
  assumes "hexShape layers" and "list_all (list_all isUpper) layers"
  shows "\<exists>g. buildGrid layers = Some (Inr g) \<and> gridSymmetric g"
proof -
  from buildGrid_wellformed[OF assms[unfolded upper_layers_iff]] obtain g where
    g: "buildGrid layers = Some (Inr g)" and wb: "wellBuilt (length layers) g"
    by (elim exE conjE)
  note adj = wellBuilt_adj[OF wb] and cells = wellBuilt_cell[OF wb]
  let ?L = "length layers"
  have bk: "linked (nodes g) b a"
    if a: "a \<in> set (concat (positionNodeArray g))" and k: "adjacentList (nodes g a) k = Some b" for a b k
  proof -
    from cells[OF a] obtain r p where rp: "validCell ?L r p" "a = positionNodeArray g ! r ! p" by blast
    have ak: "adjacentList (nodes g a) k =
             (case hexNeighbor ?L r p k of
                None \<Rightarrow> None
              | Some (i, j) \<Rightarrow> Some (positionNodeArray g ! i ! j))"
      unfolding rp(2) using rp(1) by (rule adj)
    obtain i j where ij: "hexNeighbor ?L r p k = Some (i, j)"
      using ak k by (cases "hexNeighbor ?L r p k") auto
    have b: "b = positionNodeArray g ! i ! j" using ak k ij by simp
    have v': "validCell ?L i j" using rp(1) ij by (rule hexNeighbor_valid)
    from hexNeighbor_sym[OF rp(1) ij] obtain k' where
      k': "k' < SIDES" "hexNeighbor ?L i j k' = Some (r, p)" by blast
    have "adjacentList (nodes g b) k' =
             (case hexNeighbor ?L i j k' of
                None \<Rightarrow> None
              | Some (i, j) \<Rightarrow> Some (positionNodeArray g ! i ! j))"
      unfolding b using v' by (rule adj)
    then have "adjacentList (nodes g b) k' = Some a"
      unfolding k'(2) rp(2) by simp
    with k'(1) show ?thesis unfolding linked_iff by blast
  qed
  have "gridSymmetric g"
    unfolding gridSymmetric_def symmetricOn_def list_all_iff
  proof (intro ballI)
    fix a k
    assume a: "a \<in> set (concat (positionNodeArray g))"
    show "case adjacentList (nodes g a) k of None \<Rightarrow> True | Some b \<Rightarrow> linked (nodes g) b a"
    proof (cases "adjacentList (nodes g a) k")
      case None
      then show ?thesis by simp
    next
      case (Some b)
      with bk[OF a Some] show ?thesis by simp
    qed
  qed
  with g show ?thesis by blast
qed

theorem neighbors_symmetric_wellformed_witness:
  "hexShape [''A'', ''BCDEFG''] \<and>
   list_all (list_all isUpper) [''A'', ''BCDEFG''] \<and>
   (\<exists>g. buildGrid [''A'', ''BCDEFG''] = Some (Inr g) \<and> gridSymmetric g)"
proof -
  have s: "hexShape [''A'', ''BCDEFG'']"
    by (simp add: hexShape_def SIDES_def upt_unroll)
  have u: "list_all (list_all isUpper) [''A'', ''BCDEFG'']"
    by (simp add: isUpper_def less_eq_char_def)
  show ?thesis
    using s u neighbors_symmetric_wellformed [OF s u] by blast
qed

text \<open>
  The claim C2 as stated, for any grid, fails: with seven cells in ring 1 setNeighbors
  returns without an access out of range, the seventh cell lists the centre in its slot 0
  and the centre, whose six slots hold the first six cells of ring 1, does not list it.
\<close>

theorem neighbors_asymmetric_seven_cells:
  "map_option (map_sum id gridSymmetric) (buildGrid [''A'', ''BCDEFGH'']) = Some (Inr False)"
  by (simp add: eval_simps gridSymmetric_def symmetricOn_def linked_def)

section \<open>The centre cell\<close>

lemma hexNeighbor_centre:
  "hexNeighbor L 0 0 k = (if 1 < L \<and> k < SIDES then Some (1, k) else None)"
  by (simp add: hexNeighbor_def)

text \<open>
  C6. After the adjacency resolution of a well-formed honeycomb with more than one ring,
  slot \<open>k\<close> of the centre cell (ring 0, position 0) points to the cell at ring 1,
  position \<open>k\<close>, for each of the 6 slots; on a honeycomb of one ring all slots of the
  centre cell are empty.
\<close>

theorem centre_neighbors:
  assumes "hexShape layers" and "list_all (list_all isUpper) layers"
    and "layers \<noteq> []"
  shows "\<exists>g. buildGrid layers = Some (Inr g) \<and>
           (1 < length layers \<longrightarrow>
              (\<forall>k<SIDES. adjacentList (nodes g (positionNodeArray g ! 0 ! 0)) k
                             = Some (positionNodeArray g ! 1 ! k) \<and>
                          layerN (nodes g (positionNodeArray g ! 1 ! k)) = 1 \<and>
                          charN (nodes g (positionNodeArray g ! 1 ! k)) = k)) \<and>
           (length layers = 1 \<longrightarrow>
              (\<forall>k<SIDES. adjacentList (nodes g (positionNodeArray g ! 0 ! 0)) k = None))"
proof -
  from buildGrid_wellformed[OF assms(1,2)[unfolded upper_layers_iff]] obtain g where
    g: "buildGrid layers = Some (Inr g)" and wb: "wellBuilt (length layers) g"
    by (elim exE conjE)
  let ?L = "length layers"
  have v0: "validCell ?L 0 0" using assms(3) by (simp add: validCell_def)
  note a0 = wellBuilt_adj[OF wb v0, unfolded hexNeighbor_centre]
  have many: "adjacentList (nodes g (positionNodeArray g ! 0 ! 0)) k = Some (positionNodeArray g ! 1 ! k) \<and>
              layerN (nodes g (positionNodeArray g ! 1 ! k)) = 1 \<and>
              charN (nodes g (positionNodeArray g ! 1 ! k)) = k"
    if "1 < ?L" "k < SIDES" for k
  proof -
    have "validCell ?L 1 k" using that by (simp add: validCell_def)
    from wellBuilt_coord[OF wb this] a0[of k] that show ?thesis by simp
  qed
  have one: "adjacentList (nodes g (positionNodeArray g ! 0 ! 0)) k = None" if "?L = 1" for k
    using a0[of k] that by simp
  from g many one show ?thesis by blast
qed

theorem centre_neighbors_witness:
  "hexShape [''A'', ''BCDEFG''] \<and>
   list_all (list_all isUpper) [''A'', ''BCDEFG''] \<and> [''A'', ''BCDEFG''] \<noteq> [] \<and>
   hexShape [''A''] \<and> list_all (list_all isUpper) [''A''] \<and> [''A''] \<noteq> [] \<and>
   (\<exists>g. buildGrid [''A'', ''BCDEFG''] = Some (Inr g) \<and>
      (\<forall>k<SIDES. adjacentList (nodes g (positionNodeArray g ! 0 ! 0)) k
                     = Some (positionNodeArray g ! 1 ! k))) \<and>
   (\<exists>g. buildGrid [''A''] = Some (Inr g) \<and>
      (\<forall>k<SIDES. adjacentList (nodes g (positionNodeArray g ! 0 ! 0)) k = None))"
proof -
  have s2: "hexShape [''A'', ''BCDEFG'']"
    by (simp add: hexShape_def SIDES_def upt_unroll)
  have u2: "list_all (list_all isUpper) [''A'', ''BCDEFG'']"
    by (simp add: isUpper_def less_eq_char_def)
  have s1: "hexShape [''A'']"
    by (simp add: hexShape_def SIDES_def upt_unroll)
  have u1: "list_all (list_all isUpper) [''A'']"
    by (simp add: isUpper_def less_eq_char_def)
  have n2: "[''A'', ''BCDEFG''] \<noteq> []" and n1: "[''A''] \<noteq> []" by simp_all
  have l2: "1 < length [''A'', ''BCDEFG'']" and l1: "length [''A''] = 1" by simp_all
  from centre_neighbors [OF s2 u2 n2] l2
  have r2: "\<exists>g. buildGrid [''A'', ''BCDEFG''] = Some (Inr g) \<and>
      (\<forall>k<SIDES. adjacentList (nodes g (positionNodeArray g ! 0 ! 0)) k
                     = Some (positionNodeArray g ! 1 ! k))" by blast
  from centre_neighbors [OF s1 u1 n1] l1
  have r1: "\<exists>g. buildGrid [''A''] = Some (Inr g) \<and>
      (\<forall>k<SIDES. adjacentList (nodes g (positionNodeArray g ! 0 ! 0)) k = None)" by blast
  from s2 u2 n2 s1 u1 n1 r2 r1 show ?thesis by blast
qed

section \<open>The builder does not validate\<close>

text \<open>
  C4 (as amended). Grid construction does not validate its input. It returns a grid
  exactly when every character of every ring is an uppercase letter from \<open>A\<close> to \<open>Z\<close>; the
  empty ring list is among these inputs. For a ring list with any other character the
  bucket index \<^verbatim>\<open>value - 'A'\<close> is outside the 26 entries of the bucket array: an access out
  of range (undefined behaviour in the source), not an error reported to the caller.
\<close>

theorem populate_succeeds_iff_uppercase:
  "((\<exists>g. populateLinkedNodeArray layers emptyGrid = Some (Inr g)) \<longleftrightarrow>
      list_all (list_all isUpper) layers) \<and>
   (\<not> list_all (list_all isUpper) layers \<longrightarrow>
      populateLinkedNodeArray layers emptyGrid = Some (Inl OutOfBounds))"
proof (cases "list_all (list_all isUpper) layers")
  case True
  with populate_result[of layers] show ?thesis by (auto simp: upper_layers_iff)
next
  case False
  with populate_result[of layers]
  have "populateLinkedNodeArray layers emptyGrid = Some (Inl OutOfBounds)"
    by (simp add: upper_layers_iff)
  with False show ?thesis by simp
qed

theorem populate_succeeds_iff_uppercase_witness:
  "list_all (list_all isUpper) [''A'', ''BCDEFG''] \<and>
   (\<exists>g. populateLinkedNodeArray [''A'', ''BCDEFG''] emptyGrid = Some (Inr g)) \<and>
   \<not> list_all (list_all isUpper) [''A'', ''B7''] \<and>
   populateLinkedNodeArray [''A'', ''B7''] emptyGrid = Some (Inl OutOfBounds)"
proof -
  have u: "list_all (list_all isUpper) [''A'', ''BCDEFG'']"
    by (simp add: isUpper_def less_eq_char_def)
  have n: "\<not> list_all (list_all isUpper) [''A'', ''B7'']"
    by (simp add: isUpper_def less_eq_char_def)
  show ?thesis
    using u n populate_succeeds_iff_uppercase [of "[''A'', ''BCDEFG'']"]
      populate_succeeds_iff_uppercase [of "[''A'', ''B7'']"]
    by blast
qed

text \<open>
  The claim C4 as stated fails on the empty ring list: the builder returns the empty grid,
  no error is reported, and \<^verbatim>\<open>main\<close> goes on to search the dictionary and prints nothing.
\<close>

theorem empty_ring_list_is_accepted:
  "populateLinkedNodeArray [] emptyGrid = Some (Inr emptyGrid) \<and>
   buildGrid [] = Some (Inr emptyGrid) \<and>
   main [] [''AB''] = Some (Inr [])"
  by (simp add: eval_simps run.simps)

section \<open>The inward neighbours\<close>

lemma isCorner_iff: "isCorner r p \<longleftrightarrow> r = 0 \<or> p mod r = 0"
  by (simp add: isCorner_def)

lemma inward_filter:
  assumes r: "0 < r"
  shows "filter (\<lambda>k. case hexNeighbor L r p k of None \<Rightarrow> False | Some (i, j) \<Rightarrow> i = r - 1) [0..<SIDES]
           = (if isCorner r p then [0] else [0, 5])"
  using r by (auto simp: upt_SIDES hexNeighbor_def)

text \<open>
  C5. In a well-formed honeycomb, for the cell at ring \<open>r > 0\<close> and position \<open>p\<close>: slot 0,
  the inward neighbour slot, points to ring \<open>r - 1\<close> at position
  \<open>(r - 1) * (p div r) + p mod r\<close> when \<open>p\<close> is not the last position of ring \<open>r\<close>, and
  at position 0 when it is. A cell is a corner iff \<open>r = 0\<close> or \<open>p mod r = 0\<close>. The slots
  that point into ring \<open>r - 1\<close> are slot 0 alone for a corner cell (exactly one), and
  slots 0 and 5 for an edge cell (two).
\<close>

theorem inward_neighbor:
  assumes "hexShape layers" and "list_all (list_all isUpper) layers"
    and "0 < r" and "r < length layers" and "p < SIDES * r"
  shows "\<exists>g. buildGrid layers = Some (Inr g) \<and>
           adjacentList (nodes g (positionNodeArray g ! r ! p)) 0 =
             Some (positionNodeArray g ! (r - 1) !
                     (if p < SIDES * r - 1 then (r - 1) * (p div r) + p mod r else 0)) \<and>
           (isCorner r p \<longleftrightarrow> r = 0 \<or> p mod r = 0) \<and>
           inwardSlots g r p = (if isCorner r p then [0] else [0, 5]) \<and>
           length (inwardSlots g r p) = (if isCorner r p then 1 else 2)"
proof -
  from buildGrid_wellformed[OF assms(1,2)[unfolded upper_layers_iff]] obtain g where
    g: "buildGrid layers = Some (Inr g)" and wb: "wellBuilt (length layers) g"
    by (elim exE conjE)
  let ?L = "length layers"
  let ?a = "positionNodeArray g ! r ! p"
  have v: "validCell ?L r p" using assms(3-5) by (simp add: validCell_def)
  note adj = wellBuilt_adj[OF wb v]
  have s0: "adjacentList (nodes g ?a) 0 =
             Some (positionNodeArray g ! (r - 1) !
                     (if p < SIDES * r - 1 then (r - 1) * (p div r) + p mod r else 0))"
    using adj[of 0] assms(3) by (simp add: hexNeighbor_def)
  have pk: "(case adjacentList (nodes g ?a) k of None \<Rightarrow> False | Some b \<Rightarrow> layerN (nodes g b) = r - 1) =
            (case hexNeighbor ?L r p k of None \<Rightarrow> False | Some (i, j) \<Rightarrow> i = r - 1)" for k
  proof (cases "hexNeighbor ?L r p k")
    case None
    with adj[of k] show ?thesis by simp
  next
    case (Some ij)
    obtain i j where ij: "ij = (i, j)" by (cases ij)
    have "validCell ?L i j" using v Some[unfolded ij] by (rule hexNeighbor_valid)
    from wellBuilt_coord[OF wb this] adj[of k] Some ij show ?thesis by simp
  qed
  have "inwardSlots g r p =
          filter (\<lambda>k. case hexNeighbor ?L r p k of None \<Rightarrow> False | Some (i, j) \<Rightarrow> i = r - 1) [0..<SIDES]"
    unfolding inwardSlots_def by (rule filter_cong) (simp_all add: pk)
  then have sl: "inwardSlots g r p = (if isCorner r p then [0] else [0, 5])"
    using inward_filter[OF assms(3), of ?L p] by simp
  then have ln: "length (inwardSlots g r p) = (if isCorner r p then 1 else 2)" by simp
  show ?thesis
    by (intro exI[of _ g] conjI) (rule g s0 sl ln isCorner_iff)+
qed

theorem inward_neighbor_witness:
  "hexShape [''A'', ''BCDEFG'', ''HIJKLMNOPQRS''] \<and>
   list_all (list_all isUpper) [''A'', ''BCDEFG'', ''HIJKLMNOPQRS''] \<and>
   (0::nat) < 2 \<and> 2 < length [''A'', ''BCDEFG'', ''HIJKLMNOPQRS''] \<and> (3::nat) < SIDES * 2 \<and>
   \<not> isCorner 2 3 \<and>
   (\<exists>g. buildGrid [''A'', ''BCDEFG'', ''HIJKLMNOPQRS''] = Some (Inr g) \<and>
        adjacentList (nodes g (positionNodeArray g ! 2 ! 3)) 0 = Some (positionNodeArray g ! 1 ! 2) \<and>
        inwardSlots g 2 3 = [0, 5])"
proof -
  have s: "hexShape [''A'', ''BCDEFG'', ''HIJKLMNOPQRS'']"
    by (simp add: hexShape_def SIDES_def upt_unroll)
  have u: "list_all (list_all isUpper) [''A'', ''BCDEFG'', ''HIJKLMNOPQRS'']"
    by (simp add: isUpper_def less_eq_char_def)
  have r: "(0::nat) < 2" and l: "2 < length [''A'', ''BCDEFG'', ''HIJKLMNOPQRS'']"
    and p: "(3::nat) < SIDES * 2"
    by (simp_all add: SIDES_def)
  have c: "\<not> isCorner 2 3" by (simp add: isCorner_def)
  have i: "(if (3::nat) < SIDES * 2 - 1 then (2 - 1) * (3 div 2) + 3 mod 2 else 0) = (2::nat)"
    by (simp add: SIDES_def)
  from inward_neighbor [OF s u r l p] obtain g where
    g: "buildGrid [''A'', ''BCDEFG'', ''HIJKLMNOPQRS''] = Some (Inr g)"
    and a: "adjacentList (nodes g (positionNodeArray g ! 2 ! 3)) 0 =
             Some (positionNodeArray g ! (2 - 1) !
                     (if 3 < SIDES * 2 - 1 then (2 - 1) * (3 div 2) + 3 mod 2 else 0))"
    and sl: "inwardSlots g 2 3 = (if isCorner 2 3 then [0] else [0, 5])"
    by (elim exE conjE)
  have a': "adjacentList (nodes g (positionNodeArray g ! 2 ! 3)) 0 = Some (positionNodeArray g ! 1 ! 2)"
    using a unfolding i by simp
  have sl': "inwardSlots g 2 3 = [0, 5]" using sl c by simp
  have "\<exists>g. buildGrid [''A'', ''BCDEFG'', ''HIJKLMNOPQRS''] = Some (Inr g) \<and>
        adjacentList (nodes g (positionNodeArray g ! 2 ! 3)) 0 = Some (positionNodeArray g ! 1 ! 2) \<and>
        inwardSlots g 2 3 = [0, 5]"
    by (intro exI[of _ g] conjI) (rule g a' sl')+
  then show ?thesis
    by (intro conjI) (rule s u r l p c)+
qed

section \<open>One-letter words and self-loops\<close>

lemma getBucket_inj: "getBucket v = getBucket w \<Longrightarrow> v = w"
proof -
  assume e: "getBucket v = getBucket w"
  let ?k = "of_char v :: int" and ?j = "of_char w :: int"
  have r: "0 \<le> ?k \<and> ?k < 256" "0 \<le> ?j \<and> ?j < 256" by (rule of_char_int_range)+
  have "int (unat (getBucket v)) = int (unat (getBucket w))" using e by simp
  then have "(if 65 \<le> ?k \<and> ?k < 128 then ?k - 65
      else if ?k < 65 then 2 ^ 64 - 65 + ?k else 2 ^ 64 - 65 - 256 + ?k) =
     (if 65 \<le> ?j \<and> ?j < 128 then ?j - 65
      else if ?j < 65 then 2 ^ 64 - 65 + ?j else 2 ^ 64 - 65 - 256 + ?j)"
    by (simp only: unat_getBucket)
  with r have "?k = ?j" by (simp split: if_splits)
  then have "int (of_char v) = int (of_char w)" by (simp add: of_nat_of_char)
  then have "(of_char v :: nat) = of_char w" by simp
  then show "v = w" by simp
qed

lemma populateLayer_step:
  assumes "populateLayer ln (v # layer) cn g = Some (Inr g')"
  shows "\<exists>g1. populateLayer ln layer (Suc cn) g1 = Some (Inr g') \<and>
              allocated g1 = Suc (allocated g) \<and>
              (\<forall>a. cvalue (nodes g1 a) = (if a = allocated g then v else cvalue (nodes g a)))"
  using assms by (auto simp: Let_def split: if_splits option.splits)

lemma populateLayer_letters:
  "populateLayer ln layer cn g = Some (Inr g') \<Longrightarrow>
   allocated g' = allocated g + length layer \<and>
   (\<forall>a<allocated g. cvalue (nodes g' a) = cvalue (nodes g a)) \<and>
   (\<forall>j<length layer. cvalue (nodes g' (allocated g + j)) = layer ! j)"
proof (induction layer arbitrary: g cn)
  case Nil
  then show ?case by simp
next
  case (Cons v layer)
  from populateLayer_step[OF Cons.prems] obtain g1 where
    g1: "populateLayer ln layer (Suc cn) g1 = Some (Inr g')" "allocated g1 = Suc (allocated g)"
        "\<And>a. cvalue (nodes g1 a) = (if a = allocated g then v else cvalue (nodes g a))"
    by blast
  from Cons.IH[OF g1(1)] have
    IH: "allocated g' = allocated g1 + length layer"
        "\<And>a. a < allocated g1 \<Longrightarrow> cvalue (nodes g' a) = cvalue (nodes g1 a)"
        "\<And>j. j < length layer \<Longrightarrow> cvalue (nodes g' (allocated g1 + j)) = layer ! j"
    by simp_all
  have a: "allocated g' = allocated g + length (v # layer)" using IH(1) g1(2) by simp
  have b: "cvalue (nodes g' a) = cvalue (nodes g a)" if "a < allocated g" for a
    using IH(2)[of a] g1(2) g1(3)[of a] that by simp
  have c: "cvalue (nodes g' (allocated g + j)) = (v # layer) ! j" if "j < length (v # layer)" for j
  proof (cases j)
    case 0
    then show ?thesis using IH(2)[of "allocated g"] g1(2) g1(3)[of "allocated g"] by simp
  next
    case (Suc i)
    with that have "i < length layer" by simp
    from IH(3)[OF this] Suc g1(2) show ?thesis by simp
  qed
  from a b c show ?case by blast
qed

lemma populateLayers_letters:
  "populateLayers layers ln g = Some (Inr g') \<Longrightarrow>
   allocated g' = allocated g + length (concat layers) \<and>
   (\<forall>a<allocated g. cvalue (nodes g' a) = cvalue (nodes g a)) \<and>
   (\<forall>j<length (concat layers). cvalue (nodes g' (allocated g + j)) = concat layers ! j)"
proof (induction layers arbitrary: g ln)
  case Nil
  then show ?case by simp
next
  case (Cons layer layers)
  let ?g0 = "g\<lparr>positionNodeArray := positionNodeArray g @ [[]]\<rparr>"
  from Cons.prems obtain g1 where
    g1: "populateLayer ln layer 0 ?g0 = Some (Inr g1)" "populateLayers layers (Suc ln) g1 = Some (Inr g')"
    by (auto split: option.splits sum.splits)
  from populateLayer_letters[OF g1(1)] have
    L: "allocated g1 = allocated g + length layer"
       "\<And>a. a < allocated g \<Longrightarrow> cvalue (nodes g1 a) = cvalue (nodes g a)"
       "\<And>j. j < length layer \<Longrightarrow> cvalue (nodes g1 (allocated g + j)) = layer ! j"
    by simp_all
  from Cons.IH[OF g1(2)] have
    IH: "allocated g' = allocated g1 + length (concat layers)"
        "\<And>a. a < allocated g1 \<Longrightarrow> cvalue (nodes g' a) = cvalue (nodes g1 a)"
        "\<And>j. j < length (concat layers) \<Longrightarrow> cvalue (nodes g' (allocated g1 + j)) = concat layers ! j"
    by simp_all
  have a: "allocated g' = allocated g + length (concat (layer # layers))" using IH(1) L(1) by simp
  have b: "cvalue (nodes g' a) = cvalue (nodes g a)" if "a < allocated g" for a
    using IH(2)[of a] L(1) L(2)[of a] that by simp
  have c: "cvalue (nodes g' (allocated g + j)) = concat (layer # layers) ! j"
    if "j < length (concat (layer # layers))" for j
  proof (cases "j < length layer")
    case True
    then show ?thesis using IH(2)[of "allocated g + j"] L(1) L(3)[of j] by (simp add: nth_append)
  next
    case False
    then obtain i where i: "j = length layer + i" by (metis le_add_diff_inverse not_less)
    with that have "i < length (concat layers)" by simp
    from IH(3)[OF this] i L(1) show ?thesis by (simp add: nth_append add.assoc)
  qed
  from a b c show ?case by blast
qed

lemma populate_letters:
  assumes "populateLinkedNodeArray layers emptyGrid = Some (Inr g)"
  shows "allocated g = length (concat layers)"
    and "a < allocated g \<Longrightarrow> cvalue (nodes g a) = concat layers ! a"
proof -
  have z: "allocated emptyGrid = 0" by (simp add: emptyGrid_def)
  from populateLayers_letters[OF assms[unfolded populateLinkedNodeArray_def]] z
  have 1: "allocated g = length (concat layers)"
    and 2: "\<And>j. j < length (concat layers) \<Longrightarrow> cvalue (nodes g (0 + j)) = concat layers ! j"
    by simp_all
  show "allocated g = length (concat layers)" by (rule 1)
  show "a < allocated g \<Longrightarrow> cvalue (nodes g a) = concat layers ! a" using 1 2[of a] by simp
qed

lemma bucket_head_iff_letter:
  assumes p: "populateLinkedNodeArray layers emptyGrid = Some (Inr g)" and i: "gridInv g"
  shows "linkedNodeArray g (unat (getBucket c)) \<noteq> None \<longleftrightarrow> c \<in> set (concat layers)"
proof
  assume "linkedNodeArray g (unat (getBucket c)) \<noteq> None"
  then obtain a where a: "linkedNodeArray g (unat (getBucket c)) = Some a" by blast
  from i have "headsInv (linkedNodeArray g) (nodes g) (allocated g)" by (simp add: gridInv_def)
  with a have "a < allocated g" "unat (getBucket (cvalue (nodes g a))) = unat (getBucket c)"
    unfolding headsInv_def by blast+
  then have "cvalue (nodes g a) = c" by (simp add: word_unat_eq_iff getBucket_inj)
  with populate_letters[OF p] \<open>a < allocated g\<close> show "c \<in> set (concat layers)"
    by (metis nth_mem)
next
  assume "c \<in> set (concat layers)"
  then obtain j where j: "j < length (concat layers)" "concat layers ! j = c"
    by (metis in_set_conv_nth)
  with populate_letters[OF p] have "j < allocated g" "cvalue (nodes g j) = c" by simp_all
  moreover from i have "headsInv (linkedNodeArray g) (nodes g) (allocated g)" by (simp add: gridInv_def)
  ultimately show "linkedNodeArray g (unat (getBucket c)) \<noteq> None"
    unfolding headsInv_def by blast
qed

lemma searchList_one_letter: "searchList [c] cur h = Some (Inr (cur \<noteq> None, h))"
  by (subst searchList.simps) (simp add: substr1_def split: option.splits)

lemma hexNeighbor_irrefl: "validCell L r p \<Longrightarrow> hexNeighbor L r p k \<noteq> Some (r, p)"
  by (auto simp: hexNeighbor_def validCell_def SIDES_def split: if_splits)

lemma wellBuilt_no_self_loop:
  assumes wb: "wellBuilt L g" and a: "a \<in> set (concat (positionNodeArray g))"
  shows "\<not> linked (nodes g) a a"
proof
  assume "linked (nodes g) a a"
  then obtain k where k: "adjacentList (nodes g a) k = Some a" unfolding linked_iff by blast
  from wellBuilt_cell[OF wb a] obtain r p where rp: "validCell L r p" "a = positionNodeArray g ! r ! p"
    by blast
  have ak: "adjacentList (nodes g a) k =
      (case hexNeighbor L r p k of None \<Rightarrow> None | Some (i, j) \<Rightarrow> Some (positionNodeArray g ! i ! j))"
    unfolding rp(2) using wb rp(1) by (rule wellBuilt_adj)
  obtain i j where ij: "hexNeighbor L r p k = Some (i, j)"
    using ak k by (cases "hexNeighbor L r p k") auto
  have e: "positionNodeArray g ! i ! j = positionNodeArray g ! r ! p" using ak k ij rp(2) by simp
  have v': "validCell L i j" using rp(1) ij by (rule hexNeighbor_valid)
  have c1: "layerN (nodes g (positionNodeArray g ! i ! j)) = i \<and> charN (nodes g (positionNodeArray g ! i ! j)) = j"
    using wb v' by (rule wellBuilt_coord)
  have c2: "layerN (nodes g (positionNodeArray g ! r ! p)) = r \<and> charN (nodes g (positionNodeArray g ! r ! p)) = p"
    using wb rp(1) by (rule wellBuilt_coord)
  from c1 have "i = r \<and> j = p" unfolding e using c2 by (elim conjE) (simp only:)
  then have "hexNeighbor L r p k = Some (r, p)" using ij by simp
  with hexNeighbor_irrefl[OF rp(1), of k] show False by (rule notE)
qed

text \<open>
  C8. A one-character word (an uppercase letter) is found exactly when some cell carries
  that letter: the search for its empty remainder succeeds at the first cell of the
  letter's list, with no neighbour step. No cell of a well-formed honeycomb is its own
  neighbour. On the grid that consists of ring 0 = \<open>A\<close> alone, with the dictionary \<open>A\<close>,
  \<open>AA\<close>, the program prints exactly \<open>A\<close>.
\<close>

theorem one_letter_words:
  assumes "hexShape layers" and "list_all (list_all isUpper) layers" and "isUpper c"
  shows "main layers [[c]] = Some (Inr (if c \<in> set (concat layers) then [[c]] else [])) \<and>
         (\<exists>g. buildGrid layers = Some (Inr g) \<and>
              list_all (\<lambda>a. \<not> linked (nodes g) a a) (concat (positionNodeArray g))) \<and>
         main [''A''] [''A'', ''AA''] = Some (Inr [''A''])"
proof -
  note u = assms(2)[unfolded upper_layers_iff]
  from populate_result[of layers] u obtain g0 where
    g0: "populateLinkedNodeArray layers emptyGrid = Some (Inr g0)" "gridInv g0"
    by auto
  from buildGrid_wellformed[OF assms(1) u] obtain g where
    g: "buildGrid layers = Some (Inr g)" and wb: "wellBuilt (length layers) g"
    by (elim exE conjE)
  have lna: "linkedNodeArray g = linkedNodeArray g0"
    using g g0(1) by (auto simp: buildGrid_def split: sum.splits)
  have bl: "unat (getBucket c) < ALPHABET" using assms(3) by (simp add: getBucket_in_range)
  have hd: "linkedNodeArray g (unat (getBucket c)) \<noteq> None \<longleftrightarrow> c \<in> set (concat layers)"
    unfolding lna using g0 by (rule bucket_head_iff_letter)
  have sd: "searchDictionary (linkedNodeArray g) [[c]] [] (nodes g) =
        Some (Inr (if c \<in> set (concat layers) then [[c]] else [], nodes g))"
    using bl hd by (simp add: word0_def searchList_one_letter Let_def)
  have 1: "main layers [[c]] = Some (Inr (if c \<in> set (concat layers) then [[c]] else []))"
    by (simp add: main_def g sd del: searchDictionary.simps)
  have "\<forall>a\<in>set (concat (positionNodeArray g)). \<not> linked (nodes g) a a"
    using wellBuilt_no_self_loop[OF wb] by blast
  then have "list_all (\<lambda>a. \<not> linked (nodes g) a a) (concat (positionNodeArray g))"
    by (simp only: list_all_iff)
  with g have 2: "\<exists>g. buildGrid layers = Some (Inr g) \<and>
              list_all (\<lambda>a. \<not> linked (nodes g) a a) (concat (positionNodeArray g))"
    by (intro exI[of _ g] conjI)
  have 3: "main [''A''] [''A'', ''AA''] = Some (Inr [''A''])"
    by (simp add: eval_simps run.simps)
  show ?thesis by (intro conjI) (rule 1 2 3)+
qed

theorem one_letter_words_witness:
  "hexShape [''A'', ''BCDEFG''] \<and> list_all (list_all isUpper) [''A'', ''BCDEFG''] \<and>
   isUpper CHR ''G'' \<and> isUpper CHR ''Q'' \<and>
   main [''A'', ''BCDEFG''] [''G''] = Some (Inr [''G'']) \<and>
   main [''A'', ''BCDEFG''] [''Q''] = Some (Inr [])"
proof -
  have s: "hexShape [''A'', ''BCDEFG'']"
    by (simp add: hexShape_def SIDES_def upt_unroll)
  have u: "list_all (list_all isUpper) [''A'', ''BCDEFG'']"
    by (simp add: isUpper_def less_eq_char_def)
  have g: "isUpper CHR ''G''" and q: "isUpper CHR ''Q''"
    by (simp_all add: isUpper_def less_eq_char_def)
  have mg: "main [''A'', ''BCDEFG''] [''G''] = Some (Inr [''G''])"
    using one_letter_words [OF s u g, THEN conjunct1] by simp
  have mq: "main [''A'', ''BCDEFG''] [''Q''] = Some (Inr [])"
    using one_letter_words [OF s u q, THEN conjunct1] by simp
  show ?thesis by (intro conjI) (rule s u g q mg mq)+
qed

section \<open>The start cells of the driver\<close>

text \<open>
  setNeighbors writes neighbour slots only. So in the grid that \<^verbatim>\<open>main\<close> builds, whatever
  the sizes of the layers, no on-path marker is set, the head of the list of a letter
  carries that letter, and so does every node that follows it in the list: these are the
  start cells that the loop of \<^verbatim>\<open>main\<close> hands to \<open>searchNodes\<close>.
\<close>

lemma keeps_skip: "keeps skip"
  by (simp add: keeps_def skip_def)

lemma keeps_setAdjacent: "keeps (setAdjacent pna current slot i j)"
  by (auto simp: keeps_def setAdjacent_def split: sum.splits)

lemma keeps_run: "(\<And>s. s \<in> set ss \<Longrightarrow> keeps s) \<Longrightarrow> keeps (run ss)"
proof (induction ss)
  case Nil
  show ?case by (simp add: keeps_def)
next
  case (Cons s ss)
  have s: "keeps s" and r: "keeps (run ss)" using Cons by simp_all
  show ?case
    unfolding keeps_def
  proof (intro allI impI)
    fix h h' a
    assume "run (s # ss) h = Inr h'"
    then obtain h1 where 1: "s h = Inr h1" and 2: "run ss h1 = Inr h'"
      by (auto split: sum.splits)
    from s 1 have "cvalue (h1 a) = cvalue (h a) \<and> nextPtr (h1 a) = nextPtr (h a) \<and>
             visited (h1 a) = visited (h a)" unfolding keeps_def by blast
    moreover from r 2 have "cvalue (h' a) = cvalue (h1 a) \<and> nextPtr (h' a) = nextPtr (h1 a) \<and>
             visited (h' a) = visited (h1 a)" unfolding keeps_def by blast
    ultimately show "cvalue (h' a) = cvalue (h a) \<and> nextPtr (h' a) = nextPtr (h a) \<and>
             visited (h' a) = visited (h a)" by simp
  qed
qed

lemma keeps_setNeighborsNode: "keeps (setNeighborsNode pna layerCount ln charCount cn current)"
  unfolding setNeighborsNode_def
  by (auto intro!: keeps_run simp: keeps_skip keeps_setAdjacent)

lemma keeps_setNeighborsLayer: "keeps (setNeighborsLayer pna layerCount ln)"
proof -
  have "keeps (\<lambda>h. case cellAt pna ln cn of Inl e \<Rightarrow> Inl e
        | Inr current \<Rightarrow> setNeighborsNode pna layerCount ln charCount cn current h)" for cn charCount
    using keeps_setNeighborsNode[of pna layerCount ln charCount cn]
    by (cases "cellAt pna ln cn") (simp_all add: keeps_def)
  then show ?thesis
    unfolding setNeighborsLayer_def Let_def by (intro keeps_run) auto
qed

lemma keeps_setNeighbors: "keeps (setNeighbors pna)"
  unfolding setNeighbors_def Let_def by (intro keeps_run) (auto simp: keeps_setNeighborsLayer)

lemma buildGrid_start_cells:
  assumes g: "buildGrid layers = Some (Inr g)"
  shows "\<forall>a. visited (nodes g a) = False"
    and "linkedNodeArray g (unat (getBucket c)) = Some a \<Longrightarrow> cvalue (nodes g a) = c"
    and "nextPtr (nodes g a) = Some b \<Longrightarrow> cvalue (nodes g b) = cvalue (nodes g a)"
proof -
  from g obtain g0 where p: "populateLinkedNodeArray layers emptyGrid = Some (Inr g0)"
    and s: "setNeighbors (positionNodeArray g0) (nodes g0) = Inr (nodes g)"
    and l: "linkedNodeArray g = linkedNodeArray g0"
    by (auto simp: buildGrid_def split: option.splits sum.splits)
  from populate_result[of layers] p have i: "gridInv g0" by (auto split: if_splits)
  from keeps_setNeighbors[of "positionNodeArray g0"] s
  have k: "cvalue (nodes g x) = cvalue (nodes g0 x) \<and> nextPtr (nodes g x) = nextPtr (nodes g0 x) \<and>
           visited (nodes g x) = visited (nodes g0 x)" for x
    unfolding keeps_def by blast
  from i have ch: "chainInv (nodes g0) (allocated g0)"
    and hi: "headsInv (linkedNodeArray g0) (nodes g0) (allocated g0)"
    and ci: "cellsInv (positionNodeArray g0) (nodes g0) (allocated g0)"
    by (simp_all add: gridInv_def)
  show "\<forall>a. visited (nodes g a) = False" using ci k by (simp add: cellsInv_def)
  show "cvalue (nodes g a) = c" if "linkedNodeArray g (unat (getBucket c)) = Some a"
  proof -
    from that hi have "unat (getBucket (cvalue (nodes g0 a))) = unat (getBucket c)"
      unfolding l headsInv_def by blast
    then show ?thesis using k[of a] by (simp add: word_unat_eq_iff getBucket_inj)
  qed
  show "cvalue (nodes g b) = cvalue (nodes g a)" if "nextPtr (nodes g a) = Some b"
  proof -
    from that k[of a] have "nextPtr (nodes g0 a) = Some b" by simp
    with ch have "getBucket (cvalue (nodes g0 b)) = getBucket (cvalue (nodes g0 a))"
      unfolding chainInv_def by blast
    then show ?thesis using k[of a] k[of b] by (simp add: getBucket_inj)
  qed
qed

end
